theory Spec2Isabelle
  imports Main "HOL-Library.Word" "HOL-Library.Signed_Division"
begin

unbundle bit_operations_syntax

section \<open>Machine types of the AVR target\<close>

text \<open>
  The firmware runs on an 8-bit AVR: \<open>byte\<close> and \<open>signed char\<close> are 8 bits wide,
  \<open>int\<close> and \<open>unsigned int\<close> are 16 bits wide. All of them are words here; a signed
  value is read with \<open>sint\<close>, compared with \<open><s\<close> and \<open>\<le>s\<close>, widened with
  \<open>scast\<close> and shifted right with \<open>signed_drop_bit\<close>. Arithmetic wraps around.
\<close>

type_synonym byte = "8 word"
type_synonym schar = "8 word"
type_synonym int16 = "16 word"
type_synonym uint16 = "16 word"

text \<open>The operator \<open>/\<close> of C on two \<open>int\<close> operands: the quotient is truncated towards zero.\<close>

definition sdiv16 :: "int16 \<Rightarrow> int16 \<Rightarrow> int16" where
  "sdiv16 a b = word_of_int (sint a sdiv sint b)"

section \<open>Core.ino: enumerations, state and constants\<close>

datatype Mode =
    normal | rotate_mode | transpose_mode | transposeB | offset | offsetB | keyboard
  | load | save | cvA | cvB | gatelengthmenu | qmodemenu | triggerdelaymenu

datatype CVMode =
    cvgatelength | cvrotate | cvtranspose | cvtransposechannel | cvoffset | cvoffsetchannel
  | cvload | cvoff

datatype QMode = qmnearest | qmskip | qmequal

text \<open>
  The casts \<open>(CVMode)key\<close> and \<open>(QMode)key\<close> of the menu code. The guards in front of
  them let only the keys 0..5 and 12 (respectively 0..2) through, each of which is the
  number of an enumerator.
\<close>

definition CVMode_of_key :: "byte \<Rightarrow> CVMode" where
  "CVMode_of_key key =
     (if key = 0 then cvgatelength else if key = 1 then cvrotate
      else if key = 2 then cvtranspose else if key = 3 then cvtransposechannel
      else if key = 4 then cvoffset else if key = 5 then cvoffsetchannel
      else if key = 12 then cvload else cvoff)"

definition QMode_of_key :: "byte \<Rightarrow> QMode" where
  "QMode_of_key key = (if key = 0 then qmnearest else if key = 1 then qmskip else qmequal)"

text \<open>
  \<open>struct PersistentState\<close>. The two-element array \<open>cvmode\<close> is a function of the index;
  the three reserved bytes carry no behaviour and are left out.
\<close>

record PersistentState =
  scale :: uint16
  gatelengthindex :: byte
  rotatesemitones :: schar
  transposesemitones :: schar
  transposeBsemitones :: schar
  offsetsemitones :: schar
  offsetBsemitones :: schar
  gatelegato :: bool
  qmode :: QMode
  triggerdelay :: byte
  cvmode :: "nat \<Rightarrow> CVMode"

text \<open>
  The global variables of the sketch: the persistent state, the non-persistent variables
  of Core.ino, the autosave counter of the main file, and the EEPROM with its busy flag
  (SaveRecall.ino). Two-element arrays are functions of the index 0 or 1.
\<close>

record globals =
  state :: PersistentState
  rotatedscale :: uint16
  mode :: Mode
  keyboardoctaves :: schar
  keyboardsemitones :: schar
  keyboardtriggered :: byte
  rotatesemitonesCV :: byte
  transposesemitonesCV :: "nat \<Rightarrow> schar"
  offsetsemitonesCV :: "nat \<Rightarrow> schar"
  gatelength :: int16
  cvgatelengthindex :: int16
  cvgatelengthremainder :: int16
  autosavecounter :: uint16
  eeprom :: "nat \<Rightarrow> byte"
  eebusy :: bool

text \<open>
  What \<open>processChannel\<close> owns: its static local arrays, and the hardware registers it
  drives or reads (the gate port bits, the two PWM compare registers behind \<open>setDAC\<close>,
  and the external interrupt flags \<open>EIFR\<close>).
\<close>

record channels =
  outval :: "nat \<Rightarrow> byte"
  lastgateoutval :: "nat \<Rightarrow> byte"
  gatecounter :: "nat \<Rightarrow> int16"
  freerunning :: "nat \<Rightarrow> bool"
  triggercounter :: "nat \<Rightarrow> int16"
  triggerdelay_st :: "nat \<Rightarrow> byte"
  GATE :: "nat \<Rightarrow> bool"
  DAC :: "nat \<Rightarrow> uint16"
  EIFR :: "nat \<Rightarrow> bool"

definition gatelengths :: "int16 list" where
  "gatelengths = [5, 50, 85, 144, 245, 416, 707, 1201, 2040, 3466, 5887, 10000]"

definition quartertone :: int16 where "quartertone = 4"
definition hysteresis :: int16 where "hysteresis = 1"
definition gatedelay :: int16 where "gatedelay = 2"
definition triggerdebounce :: int16 where "triggerdebounce = 6"
definition triggerautotime :: int16 where "triggerautotime = 10000"
definition triggerdelayscale :: byte where "triggerdelayscale = 5"
definition autosavetime :: uint16 where "autosavetime = 10000"

section \<open>hardware.h: the modulo-12 lookup\<close>

definition mod12table :: "byte list" where
  "mod12table =
     [0,0,0,12,12,12,24,24,24,36,36,36,48,48,48,60,60,60,72,72,72,84,84,84,
      96,96,96,108,108,108,120,120,120,132,132,132,144,144,144,156,156,156,
      168,168,168,180,180,180,192,192,192,204,204,204,216,216,216,228,228,228,
      240,240,240,252]"

text \<open>
  The macro \<open>mod12(value) = (value) - mod12table[(value) >> 2]\<close>. Its argument is an
  \<open>int\<close> expression at every use. The table has 64 entries, so the lookup is inside the
  table exactly for arguments 0..255; outside, the C code reads memory that is not part
  of the table, and the result is \<open>None\<close>: the source does not determine it.
\<close>

definition mod12 :: "int16 \<Rightarrow> int16 option" where
  "mod12 v =
     (let k = signed_drop_bit 2 v
      in if 0 \<le>s k \<and> k <s 64 then Some (v - ucast (mod12table ! unat k)) else None)"

section \<open>Quantize.ino\<close>

definition bitmask :: uint16 where "bitmask = 0x8000"

definition quantizeSemitones :: "int16 \<Rightarrow> byte" where
  "quantizeSemitones adcval = ucast (signed_drop_bit 3 (adcval + quartertone))"

text \<open>
  The two loop shapes of \<open>quantizeNearest\<close>. Each returns the loop variable and the
  shifted scale as well, because the next loop carries on from them. The loop counter
  \<open>j\<close> never exceeds 12, so it is a natural number here.

  \<open>scan_lowest\<close>: \<open>for (; j < n; j++) { if (localscale & bitmask) { l = j; break; }
  localscale <<= 1; }\<close> with \<open>l\<close> initially 255.
\<close>

function scan_lowest :: "nat \<Rightarrow> nat \<Rightarrow> uint16 \<Rightarrow> byte \<times> nat \<times> uint16" where
  "scan_lowest j n localscale =
     (if j < n then
        (if localscale AND bitmask \<noteq> 0 then (of_nat j, j, localscale)
         else scan_lowest (j + 1) n (push_bit 1 localscale))
      else (255, j, localscale))"
  by pat_completeness auto
termination
  by (relation "measure (\<lambda>(j, n, localscale). n - j)") auto

declare scan_lowest.simps [simp del]

text \<open>
  \<open>scan_highest\<close>: \<open>for (; j < n; j++) { if (localscale & bitmask) { h = j; }
  localscale <<= 1; }\<close>.
\<close>

function scan_highest :: "nat \<Rightarrow> nat \<Rightarrow> uint16 \<Rightarrow> byte \<Rightarrow> byte \<times> uint16" where
  "scan_highest j n localscale h =
     (if j < n then
        scan_highest (j + 1) n (push_bit 1 localscale)
          (if localscale AND bitmask \<noteq> 0 then of_nat j else h)
      else (h, localscale))"
  by pat_completeness auto
termination
  by (relation "measure (\<lambda>(j, n, localscale, h). n - j)") auto

declare scan_highest.simps [simp del]

text \<open>
  Quantization mode 0. The scale index \<open>scalenote\<close> is computed before the test for
  the empty scale, as in the source, but it is used only after it.
\<close>

definition quantizeNearest :: "uint16 \<Rightarrow> int16 \<Rightarrow> byte option" where
  "quantizeNearest rs adcval =
     (let note = (ucast (signed_drop_bit 3 (adcval + quartertone)) :: byte);
          r = (ucast (adcval AND 7) :: byte);
          scalenote = mod12 (ucast note + 8);
          localscale = rs
      in if localscale = 0 then Some 255
         else
           (case scalenote of
              None \<Rightarrow> None
            | Some sn \<Rightarrow>
               (let scalenote = (ucast sn :: byte);
                    (ll, j, localscale) = scan_lowest 0 (unat scalenote) localscale;
                    (lh, localscale) = scan_highest j (unat scalenote) localscale 255;
                    current = (localscale AND bitmask = bitmask);
                    localscale = push_bit 1 localscale;
                    (hl, j, localscale) = scan_lowest (unat scalenote + 1) 12 localscale;
                    (hh, localscale) = scan_highest j 12 localscale 255;
                    prev = (if lh = 255
                            then (if hh = 255 then 12 else scalenote + 12 - hh)
                            else scalenote - lh);
                    next = (if hl = 255
                            then (if ll = 255 then 12 else 12 + ll - scalenote)
                            else hl - scalenote)
                in if current then Some note
                   else if next < prev \<or> (next = prev \<and> r < 4) then Some (note + next)
                   else Some (note - prev))))"

text \<open>Quantization mode 1. Here the test for the empty scale comes first.\<close>

definition quantizeSkip :: "uint16 \<Rightarrow> int16 \<Rightarrow> byte option" where
  "quantizeSkip rs adcval =
     (let localscale = rs
      in if localscale = 0 then Some 255
         else
           (let note = (ucast (signed_drop_bit 3 (adcval + quartertone)) :: byte);
                r = (ucast (adcval AND 7) :: byte)
            in case mod12 (ucast note + 8) of
                 None \<Rightarrow> None
               | Some sn \<Rightarrow>
                  (let scalenote = (ucast sn :: byte);
                       localscale = push_bit (unat scalenote) localscale
                   in if localscale AND bitmask = bitmask then Some note else Some 255)))"

text \<open>
  The loop of \<open>quantizeEqual\<close> that lists the enabled notes:
  \<open>for (j=0; j<12; j++) { if (localscale & bitmask) { notes[numnotes] = j; numnotes++; }
  localscale <<= 1; }\<close>. Like \<open>j\<close>, the count \<open>numnotes\<close> never exceeds 12 and is a
  natural number here.
\<close>

function collect_notes :: "nat \<Rightarrow> uint16 \<Rightarrow> byte list \<Rightarrow> nat \<Rightarrow> byte list \<times> nat" where
  "collect_notes j localscale notes numnotes =
     (if j < 12 then
        (if localscale AND bitmask \<noteq> 0
         then collect_notes (j + 1) (push_bit 1 localscale)
                (notes[numnotes := of_nat j]) (numnotes + 1)
         else collect_notes (j + 1) (push_bit 1 localscale) notes numnotes)
      else (notes, numnotes))"
  by pat_completeness auto
termination
  by (relation "measure (\<lambda>(j, localscale, notes, numnotes). 12 - j)") auto

declare collect_notes.simps [simp del]

text \<open>
  Quantization mode 2. The array \<open>notes\<close> has 12 entries; an index outside it would
  read the stack, which the source does not determine (\<open>None\<close>).
\<close>

definition quantizeEqual :: "uint16 \<Rightarrow> int16 \<Rightarrow> byte option" where
  "quantizeEqual rs adcval =
     (let note = (ucast (signed_drop_bit 3 (adcval + quartertone)) :: byte);
          r = (ucast (adcval AND 7) :: byte);
          scalenote = mod12 (ucast note + 8);
          localscale = rs
      in if localscale = 0 then Some 255
         else
           (case scalenote of
              None \<Rightarrow> None
            | Some sn \<Rightarrow>
               (let scalenote = (ucast sn :: byte);
                    noteoffset = note - scalenote;
                    (notes, numnotes) = collect_notes 0 localscale (replicate 12 0) 0;
                    scalenotehighres =
                      (ucast (push_bit 3 (ucast scalenote :: int16) + ucast r) :: byte);
                    x = (ucast scalenotehighres * of_nat numnotes :: uint16);
                    index = (ucast (x div 96) :: byte)
                in if unat index < 12 then Some (noteoffset + notes ! unat index)
                   else None)))"

section \<open>Core.ino: rotation, gate length and the auxiliary overlay\<close>

text \<open>
  The shifting of \<open>updateRotation\<close>: \<open>myscale = ((myscale >> rotation) | (myscale <<
  (12 - rotation))) & 0xFFF0\<close> when \<open>rotation > 0\<close>. The rotation comes out of
  \<open>mod12\<close> and is at most 11.
\<close>

definition rotate_scale :: "uint16 \<Rightarrow> byte \<Rightarrow> uint16" where
  "rotate_scale myscale rotation =
     (if 0 < rotation
      then (drop_bit (unat rotation) myscale OR push_bit (12 - unat rotation) myscale)
             AND 0xFFF0
      else myscale)"

definition updateRotation :: "globals \<Rightarrow> globals option" where
  "updateRotation g =
     (case mod12 (scast (rotatesemitones (state g)) + ucast (rotatesemitonesCV g)) of
        None \<Rightarrow> None
      | Some m \<Rightarrow>
         (let rotation = (ucast m :: byte);
              myscale = scale (state g)
          in Some (g\<lparr>rotatedscale := rotate_scale myscale rotation\<rparr>)))"

text \<open>
  \<open>intmap\<close> of hardware.h, in 16-bit \<open>int\<close> arithmetic: the product wraps around
  before the division. It is called with \<open>in_min = 0\<close> and \<open>in_max = 39\<close> only.
\<close>

definition intmap :: "int16 \<Rightarrow> int16 \<Rightarrow> int16 \<Rightarrow> int16 \<Rightarrow> int16 \<Rightarrow> int16" where
  "intmap x in_min in_max out_min out_max =
     sdiv16 ((x - in_min) * (out_max - out_min)) (in_max - in_min) + out_min"

definition updateGatelength :: "globals \<Rightarrow> globals" where
  "updateGatelength g =
     (let i = (ucast (gatelengthindex (state g)) :: int16) + cvgatelengthindex g
      in if i <s 0 then g\<lparr>gatelength := gatelengths ! 0\<rparr>
         else if 10 <s i then g\<lparr>gatelength := gatelengths ! 11\<rparr>
         else g\<lparr>gatelength :=
                  gatelengths ! unat i +
                  intmap (cvgatelengthremainder g) 0 39 0
                    (gatelengths ! (unat i + 1) - gatelengths ! unat i)\<rparr>)"

definition resetCVState :: "nat \<Rightarrow> globals \<Rightarrow> globals option" where
  "resetCVState i g =
     (case updateRotation (g\<lparr>rotatesemitonesCV := 0\<rparr>) of
        None \<Rightarrow> None
      | Some g \<Rightarrow>
         Some (g\<lparr>transposesemitonesCV := (transposesemitonesCV g)(i := 0),
                 offsetsemitonesCV := (offsetsemitonesCV g)(i := 0),
                 cvgatelengthindex := 0,
                 cvgatelengthremainder := 0\<rparr>))"

section \<open>SaveRecall.ino: the scale banks\<close>

text \<open>
  The Arduino EEPROM library is a byte store; \<open>EEPROM.put\<close> and \<open>EEPROM.get\<close> of an
  \<open>unsigned int\<close> move two bytes, low byte first.
\<close>

definition EE_ADDR_SAVEDSCALES :: nat where "EE_ADDR_SAVEDSCALES = 0x100"
definition EE_SIZE_SAVEDSCALES :: nat where "EE_SIZE_SAVEDSCALES = 0x10"

definition EEPROM_put :: "(nat \<Rightarrow> byte) \<Rightarrow> nat \<Rightarrow> uint16 \<Rightarrow> (nat \<Rightarrow> byte)" where
  "EEPROM_put ee a v = ee(a := ucast v, a + 1 := ucast (drop_bit 8 v))"

definition EEPROM_get :: "(nat \<Rightarrow> byte) \<Rightarrow> nat \<Rightarrow> uint16" where
  "EEPROM_get ee a = push_bit 8 (ucast (ee (a + 1))) OR ucast (ee a)"

text \<open>
  \<open>saveScale(index, tscale)\<close>. The loop \<open>while (eebusy) {}\<close> does not end when the flag
  is set (\<open>None\<close>): nothing in this context clears it.
\<close>

definition saveScale :: "byte \<Rightarrow> uint16 \<Rightarrow> globals \<Rightarrow> globals option" where
  "saveScale index tscale g =
     (if index < 12 then
        (if eebusy g then None
         else Some (g\<lparr>eeprom :=
                 EEPROM_put (eeprom g)
                   (EE_ADDR_SAVEDSCALES + unat index * EE_SIZE_SAVEDSCALES) tscale,
               eebusy := False\<rparr>))
      else Some g)"

text \<open>\<open>saveScale(index)\<close>, the overload that stores the rotated scale.\<close>

definition saveScale_rotated :: "byte \<Rightarrow> globals \<Rightarrow> globals option" where
  "saveScale_rotated index g = saveScale index (rotatedscale g) g"

definition loadScale :: "byte \<Rightarrow> globals \<Rightarrow> globals option" where
  "loadScale index g =
     (if index < 12 then
        (let tscale = EEPROM_get (eeprom g)
                        (EE_ADDR_SAVEDSCALES + unat index * EE_SIZE_SAVEDSCALES)
         in updateRotation
              (g\<lparr>state := (state g)\<lparr>scale := tscale, rotatesemitones := 0\<rparr>\<rparr>))
      else Some g)"

section \<open>Core.ino: processChannel\<close>

text \<open>
  The body of \<open>if (freerunning[i]) { ... }\<close> at the start of \<open>processChannel\<close>: the
  sample moved towards the old value.
\<close>

definition with_hysteresis :: "int16 \<Rightarrow> int16 \<Rightarrow> int16" where
  "with_hysteresis oldval newadcval =
     (if oldval <s newadcval then newadcval - hysteresis
      else if newadcval <s oldval then newadcval + (hysteresis - 1)
      else newadcval)"

text \<open>\<open>newvalhyst\<close> as it stands after that \<open>if\<close>.\<close>

definition newvalhyst :: "channels \<Rightarrow> nat \<Rightarrow> int16 \<Rightarrow> int16" where
  "newvalhyst c i newadcval =
     (let oldval = push_bit 3 (ucast (outval c i) :: int16)
      in if freerunning c i then with_hysteresis oldval newadcval else newadcval)"

text \<open>The value handed to the quantizer: \<open>newvalhystoffset\<close>.\<close>

definition newvalhystoffset :: "globals \<Rightarrow> channels \<Rightarrow> nat \<Rightarrow> int16 \<Rightarrow> int16" where
  "newvalhystoffset g c i newadcval =
     (let v = newvalhyst c i newadcval +
              push_bit 3 ((scast (offsetsemitones (state g)) :: int16) +
                          scast (offsetsemitonesCV g i))
      in if i = 1 then v + push_bit 3 (scast (offsetBsemitones (state g)) :: int16) else v)"

text \<open>The dispatch on \<open>state.qmode\<close>.\<close>

definition quantize :: "globals \<Rightarrow> int16 \<Rightarrow> byte option" where
  "quantize g v =
     (if qmode (state g) = qmnearest then quantizeNearest (rotatedscale g) v
      else if qmode (state g) = qmskip then quantizeSkip (rotatedscale g) v
      else quantizeEqual (rotatedscale g) v)"

text \<open>
  The transpose after quantization: \<open>candidate += state.transposesemitones +
  transposesemitonesCV[i] - 1\<close>, and for channel 1 \<open>candidate +=
  state.transposeBsemitones\<close>; the sums are formed in \<open>int\<close> and cut to a byte.
\<close>

definition transposed :: "globals \<Rightarrow> nat \<Rightarrow> byte \<Rightarrow> byte" where
  "transposed g i q =
     (let candidate =
            (ucast ((ucast q :: int16) +
                    (scast (transposesemitones (state g)) +
                     scast (transposesemitonesCV g i) - 1)) :: byte)
      in if i = 1
         then ucast ((ucast candidate :: int16) + scast (transposeBsemitones (state g)))
         else candidate)"

text \<open>
  The candidate and the trigger decision: the \<open>if (mode==keyboard) ... else ...\<close> of
  \<open>processChannel\<close>. It returns the candidate, \<open>trig\<close>, and the statics (the
  pending trigger may be dropped).
\<close>

definition candidate_stage ::
  "globals \<Rightarrow> channels \<Rightarrow> nat \<Rightarrow> int16 \<Rightarrow> (byte \<times> bool \<times> channels) option" where
  "candidate_stage g c i newadcval =
     (if mode g = keyboard then
        Some (ucast ((63 :: int16) + ucast (keyboardsemitones g) +
                     ucast (ucast (12 * (scast (keyboardoctaves g) :: int16)) :: byte)),
              0 < keyboardtriggered g, c)
      else
        (case quantize g (newvalhystoffset g c i newadcval) of
           None \<Rightarrow> None
         | Some q \<Rightarrow>
            (let candidate = transposed g i q
             in if candidate < 128 then
                  Some (candidate,
                        (freerunning c i \<and> candidate \<noteq> outval c i) \<or> triggerdelay_st c i = 1,
                        c)
                else if triggerdelay_st c i = 1 then
                  Some (candidate, False, c\<lparr>triggerdelay_st := (triggerdelay_st c)(i := 0)\<rparr>)
                else Some (candidate, False, c))))"

text \<open>The block \<open>if (trig) { ... }\<close>.\<close>

definition accept_stage ::
  "globals \<Rightarrow> channels \<Rightarrow> nat \<Rightarrow> byte \<Rightarrow> bool \<Rightarrow> globals \<times> channels" where
  "accept_stage g c i candidate trig =
     (if trig then
        (g\<lparr>keyboardtriggered := keyboardtriggered g - 1\<rparr>,
         c\<lparr>outval := (outval c)(i := candidate),
           DAC := (DAC c)(i := ucast candidate),
           GATE := (if \<not> gatelegato (state g) then (GATE c)(i := False) else GATE c),
           gatecounter := (gatecounter c)(i := - gatedelay),
           triggerdelay_st := (triggerdelay_st c)(i := 0)\<rparr>)
      else (g, c))"

text \<open>The gate: the three \<open>if\<close> statements on \<open>gatecounter[i]\<close>.\<close>

definition gate_stage :: "globals \<Rightarrow> channels \<Rightarrow> nat \<Rightarrow> channels" where
  "gate_stage g c i =
     (let c = (if gatecounter c i = 0 then
                 (if outval c i \<noteq> lastgateoutval c i
                  then c\<lparr>GATE := (GATE c)(i := True),
                         lastgateoutval := (lastgateoutval c)(i := outval c i)\<rparr>
                  else c)
               else c);
          c = (if gatecounter c i = gatelength g
               then c\<lparr>GATE := (GATE c)(i := False)\<rparr> else c)
      in if gatecounter c i \<le>s gatelength g
         then c\<lparr>gatecounter := (gatecounter c)(i := gatecounter c i + 1)\<rparr>
         else c)"

text \<open>
  Trigger and mode: the last \<open>if\<close> of \<open>processChannel\<close>. \<open>din\<close> is what
  \<open>DIN_READ(i)\<close> reads; \<open>sbi(EIFR, i)\<close> clears the edge flag of the channel.
\<close>

definition trigger_stage :: "globals \<Rightarrow> channels \<Rightarrow> nat \<Rightarrow> bool \<Rightarrow> channels" where
  "trigger_stage g c i din =
     (if freerunning c i then
        (if din
         then c\<lparr>freerunning := (freerunning c)(i := False),
                triggercounter := (triggercounter c)(i := 0)\<rparr>
         else c)
      else if EIFR c i then
        (let c = c\<lparr>EIFR := (EIFR c)(i := False)\<rparr>;
             c = (if 0 \<le>s triggercounter c i
                  then c\<lparr>triggerdelay_st := (triggerdelay_st c)
                           (i := ucast ((1 :: int16) +
                                   ucast triggerdelayscale * ucast (triggerdelay (state g))))\<rparr>
                  else c)
         in c\<lparr>triggercounter := (triggercounter c)(i := - triggerdebounce)\<rparr>)
      else
        (let c = (if 1 < triggerdelay_st c i
                  then c\<lparr>triggerdelay_st := (triggerdelay_st c)(i := triggerdelay_st c i - 1)\<rparr>
                  else c)
         in if \<not> din then
              (if triggercounter c i \<le>s triggerautotime
               then c\<lparr>triggercounter := (triggercounter c)(i := triggercounter c i + 1)\<rparr>
               else c\<lparr>freerunning := (freerunning c)(i := True)\<rparr>)
            else
              (if triggercounter c i <s 0
               then c\<lparr>triggercounter := (triggercounter c)(i := triggercounter c i + 1)\<rparr>
               else c)))"

definition processChannel ::
  "globals \<Rightarrow> channels \<Rightarrow> nat \<Rightarrow> int16 \<Rightarrow> bool \<Rightarrow> (globals \<times> channels) option" where
  "processChannel g c i newadcval din =
     (case candidate_stage g c i newadcval of
        None \<Rightarrow> None
      | Some (candidate, trig, c) \<Rightarrow>
         (let (g, c) = accept_stage g c i candidate trig;
              c = gate_stage g c i
          in Some (g, trigger_stage g c i din)))"

section \<open>Core.ino: processCV\<close>

text \<open>
  The static local arrays of \<open>processCV\<close>. \<open>CV\<close> is declared and never used.
\<close>

record cvstatics =
  CV :: "nat \<Rightarrow> int16"
  CVquantized :: "nat \<Rightarrow> byte"

text \<open>
  \<open>processCV\<close>: the sample of auxiliary input \<open>i\<close>. In gate-length mode it sets the
  auxiliary gate-length index and remainder. In the other modes it quantizes to
  semitones, with the same adjustment towards the old value as \<open>processChannel\<close>, and
  acts when the semitone has changed. The modes \<open>cvtranspose\<close> and \<open>cvoffset\<close> write
  the entries of both channels, \<open>cvtransposechannel\<close> and \<open>cvoffsetchannel\<close> the
  entry \<open>i\<close> only. The \<open>switch\<close> has no case for \<open>cvoff\<close>.
\<close>

definition processCV ::
  "globals \<Rightarrow> cvstatics \<Rightarrow> nat \<Rightarrow> int16 \<Rightarrow> (globals \<times> cvstatics) option" where
  "processCV g s i newadcval =
     (if cvmode (state g) i = cvgatelength then
        (let x = sdiv16 (newadcval + 8) 40;
             g = g\<lparr>cvgatelengthremainder := (newadcval + 8) - x * 40\<rparr>;
             g = g\<lparr>cvgatelengthindex := x - 13\<rparr>
         in Some (updateGatelength g, s))
      else
        (let oldval = push_bit 3 (ucast (CVquantized s i) :: int16);
             newvalhyst = with_hysteresis oldval newadcval;
             candidate = quantizeSemitones newvalhyst - 1;
             trig = (candidate \<noteq> CVquantized s i);
             s = s\<lparr>CVquantized := (CVquantized s)(i := candidate)\<rparr>;
             v = (ucast ((ucast candidate :: int16) - 63) :: schar)
         in if trig then
              (case cvmode (state g) i of
                 cvrotate \<Rightarrow>
                   (case mod12 (ucast candidate - 3) of
                      None \<Rightarrow> None
                    | Some m \<Rightarrow>
                       map_option (\<lambda>g. (g, s))
                         (updateRotation (g\<lparr>rotatesemitonesCV := ucast m\<rparr>)))
               | cvtranspose \<Rightarrow>
                   Some (g\<lparr>transposesemitonesCV :=
                            (transposesemitonesCV g)(0 := v, 1 := v)\<rparr>, s)
               | cvtransposechannel \<Rightarrow>
                   Some (g\<lparr>transposesemitonesCV := (transposesemitonesCV g)(i := v)\<rparr>, s)
               | cvoffset \<Rightarrow>
                   Some (g\<lparr>offsetsemitonesCV := (offsetsemitonesCV g)(0 := v, 1 := v)\<rparr>, s)
               | cvoffsetchannel \<Rightarrow>
                   Some (g\<lparr>offsetsemitonesCV := (offsetsemitonesCV g)(i := v)\<rparr>, s)
               | cvload \<Rightarrow>
                   (case mod12 (ucast candidate - 3) of
                      None \<Rightarrow> None
                    | Some m \<Rightarrow> map_option (\<lambda>g. (g, s)) (loadScale (ucast m) g))
               | _ \<Rightarrow> Some (g, s))
            else Some (g, s)))"

section \<open>UI.ino: key presses\<close>

definition KEY_GATELENGTH :: byte where "KEY_GATELENGTH = 0"
definition KEY_ROTATE :: byte where "KEY_ROTATE = 1"
definition KEY_TRANSPOSE :: byte where "KEY_TRANSPOSE = 2"
definition KEY_TRANSPOSE_ONE :: byte where "KEY_TRANSPOSE_ONE = 3"
definition KEY_OFFSET :: byte where "KEY_OFFSET = 4"
definition KEY_OFFSET_ONE :: byte where "KEY_OFFSET_ONE = 5"
definition KEY_KEYBOARD :: byte where "KEY_KEYBOARD = 6"
definition KEY_LEGATO :: byte where "KEY_LEGATO = 7"
definition KEY_QM :: byte where "KEY_QM = 8"
definition KEY_TRIGGERDELAY :: byte where "KEY_TRIGGERDELAY = 9"
definition KEY_CVA :: byte where "KEY_CVA = 10"
definition KEY_CVB :: byte where "KEY_CVB = 11"
definition KEY_LOAD :: byte where "KEY_LOAD = 12"
definition KEY_SAVE :: byte where "KEY_SAVE = 12"
definition KEY_UP :: byte where "KEY_UP = 13"
definition KEY_DOWN :: byte where "KEY_DOWN = 14"
definition KEY_HOME :: byte where "KEY_HOME = 15"
definition MAX_CV_MODE :: byte where "MAX_CV_MODE = 5"
definition MAX_Q_MODE :: byte where "MAX_Q_MODE = 2"

text \<open>
  The four menus for transpose and offset are the same code on four fields. For a key
  below 12: \<open>x = v + 120; oct = (x/12) - 10; v = 12*oct + key\<close>, with \<open>x\<close> a byte and
  \<open>oct\<close> a signed char. (\<open>semi = mod12(x)\<close> is computed there and never read.)
\<close>

definition set_semitone :: "schar \<Rightarrow> byte \<Rightarrow> schar" where
  "set_semitone v key =
     (let x = (ucast ((scast v :: int16) + 120) :: byte);
          oct = (ucast (sdiv16 (ucast x) 12 - 10) :: schar)
      in ucast (12 * (scast oct :: int16) + ucast key))"

text \<open>
  One of these menus on the field value \<open>v\<close>: the new value, whether the menu is
  left (\<open>KEY_HOME\<close>), and whether the autosave counter is started.
\<close>

definition semitone_menu :: "schar \<Rightarrow> byte \<Rightarrow> schar \<times> bool \<times> bool" where
  "semitone_menu v key =
     (if key < 12 then (set_semitone v key, False, True)
      else if key = KEY_HOME then (v, True, False)
      else if key = KEY_DOWN \<and> - 49 <s v then (v - 12, False, True)
      else if key = KEY_UP \<and> v <s 60 then (v + 12, False, True)
      else (v, False, False))"

definition after_menu :: "globals \<Rightarrow> bool \<Rightarrow> bool \<Rightarrow> globals" where
  "after_menu g home touched =
     g\<lparr>mode := (if home then normal else mode g),
       autosavecounter := (if touched then autosavetime else autosavecounter g)\<rparr>"

definition autosave :: "globals \<Rightarrow> globals" where
  "autosave g = g\<lparr>autosavecounter := autosavetime\<rparr>"

text \<open>
  \<open>keyDownEvent\<close>. \<open>cli()\<close> and \<open>sei()\<close> change nothing in a run without
  interrupts and are left out.
\<close>

definition keyDownEvent :: "byte \<Rightarrow> bool \<Rightarrow> globals \<Rightarrow> globals option" where
  "keyDownEvent key shift g =
     (case mode g of
        normal \<Rightarrow>
          (if \<not> shift then
             (if key < 12 then
                (let rotation = (ucast ((scast (rotatesemitones (state g)) :: int16) +
                                        ucast (rotatesemitonesCV g)) :: byte)
                 in case mod12 (ucast key + 24 - ucast rotation) of
                      None \<Rightarrow> None
                    | Some m \<Rightarrow>
                       (let unrotatedkey = (ucast m :: byte)
                        in map_option autosave
                             (updateRotation
                                (g\<lparr>state := (state g)\<lparr>scale :=
                                     scale (state g) XOR drop_bit (unat unrotatedkey) 0x8000\<rparr>\<rparr>))))
              else if key = KEY_LOAD then Some (g\<lparr>mode := load\<rparr>)
              else if key = KEY_UP then
                (let v = rotatesemitones (state g) + 1;
                     v = (if v = 12 then 0 else v)
                 in map_option autosave
                      (updateRotation (g\<lparr>state := (state g)\<lparr>rotatesemitones := v\<rparr>\<rparr>)))
              else if key = KEY_DOWN then
                (let v = (if rotatesemitones (state g) = 0 then 12
                          else rotatesemitones (state g));
                     v = v - 1
                 in map_option autosave
                      (updateRotation (g\<lparr>state := (state g)\<lparr>rotatesemitones := v\<rparr>\<rparr>)))
              else Some g)
           else
             (if key = KEY_GATELENGTH then Some (g\<lparr>mode := gatelengthmenu\<rparr>)
              else if key = KEY_ROTATE then Some (g\<lparr>mode := rotate_mode\<rparr>)
              else if key = KEY_TRANSPOSE then Some (g\<lparr>mode := transpose_mode\<rparr>)
              else if key = KEY_TRANSPOSE_ONE then Some (g\<lparr>mode := transposeB\<rparr>)
              else if key = KEY_OFFSET then Some (g\<lparr>mode := offset\<rparr>)
              else if key = KEY_OFFSET_ONE then Some (g\<lparr>mode := offsetB\<rparr>)
              else if key = KEY_KEYBOARD then Some (g\<lparr>mode := keyboard\<rparr>)
              else if key = KEY_LEGATO then
                Some (g\<lparr>state := (state g)\<lparr>gatelegato := \<not> gatelegato (state g)\<rparr>\<rparr>)
              else if key = KEY_QM then Some (g\<lparr>mode := qmodemenu\<rparr>)
              else if key = KEY_TRIGGERDELAY then Some (g\<lparr>mode := triggerdelaymenu\<rparr>)
              else if key = KEY_CVA then Some (g\<lparr>mode := cvA\<rparr>)
              else if key = KEY_CVB then Some (g\<lparr>mode := cvB\<rparr>)
              else if key = KEY_SAVE then Some (g\<lparr>mode := save\<rparr>)
              else Some g))
      | rotate_mode \<Rightarrow>
          (if key < 12 then
             map_option autosave
               (updateRotation (g\<lparr>state := (state g)\<lparr>rotatesemitones := key\<rparr>\<rparr>))
           else if key = KEY_HOME then Some (g\<lparr>mode := normal\<rparr>)
           else Some g)
      | keyboard \<Rightarrow>
          (if key < 12 then Some (g\<lparr>keyboardsemitones := key, keyboardtriggered := 2\<rparr>)
           else if key = KEY_HOME then Some (g\<lparr>mode := normal\<rparr>)
           else if key = KEY_DOWN \<and> - 5 <s keyboardoctaves g then
             Some (g\<lparr>keyboardoctaves := keyboardoctaves g - 1, keyboardtriggered := 2\<rparr>)
           else if key = KEY_UP \<and> keyboardoctaves g <s 5 then
             Some (g\<lparr>keyboardoctaves := keyboardoctaves g + 1, keyboardtriggered := 2\<rparr>)
           else Some g)
      | transpose_mode \<Rightarrow>
          (let (v, home, touched) = semitone_menu (transposesemitones (state g)) key
           in Some (after_menu (g\<lparr>state := (state g)\<lparr>transposesemitones := v\<rparr>\<rparr>)
                      home touched))
      | transposeB \<Rightarrow>
          (let (v, home, touched) = semitone_menu (transposeBsemitones (state g)) key
           in Some (after_menu (g\<lparr>state := (state g)\<lparr>transposeBsemitones := v\<rparr>\<rparr>)
                      home touched))
      | offset \<Rightarrow>
          (let (v, home, touched) = semitone_menu (offsetsemitones (state g)) key
           in Some (after_menu (g\<lparr>state := (state g)\<lparr>offsetsemitones := v\<rparr>\<rparr>)
                      home touched))
      | offsetB \<Rightarrow>
          (let (v, home, touched) = semitone_menu (offsetBsemitones (state g)) key
           in Some (after_menu (g\<lparr>state := (state g)\<lparr>offsetBsemitones := v\<rparr>\<rparr>)
                      home touched))
      | gatelengthmenu \<Rightarrow>
          (if key < 12 then
             Some (autosave
                     (updateGatelength (g\<lparr>state := (state g)\<lparr>gatelengthindex := key\<rparr>\<rparr>)))
           else if key = KEY_HOME then Some (g\<lparr>mode := normal\<rparr>)
           else Some g)
      | qmodemenu \<Rightarrow>
          (if key \<le> MAX_Q_MODE then
             Some (autosave (g\<lparr>state := (state g)\<lparr>qmode := QMode_of_key key\<rparr>\<rparr>))
           else if key = KEY_HOME then Some (g\<lparr>mode := normal\<rparr>)
           else Some g)
      | cvA \<Rightarrow>
          (if key \<le> MAX_CV_MODE \<or> key = KEY_LOAD then
             map_option autosave
               (resetCVState 0
                  (g\<lparr>state := (state g)\<lparr>cvmode :=
                       (cvmode (state g))(0 := CVMode_of_key key)\<rparr>\<rparr>))
           else if key = KEY_CVA then
             map_option autosave
               (resetCVState 0
                  (g\<lparr>state := (state g)\<lparr>cvmode := (cvmode (state g))(0 := cvoff)\<rparr>\<rparr>))
           else if key = KEY_HOME then Some (g\<lparr>mode := normal\<rparr>)
           else Some g)
      | cvB \<Rightarrow>
          (if key \<le> MAX_CV_MODE \<or> key = KEY_LOAD then
             map_option autosave
               (resetCVState 1
                  (g\<lparr>state := (state g)\<lparr>cvmode :=
                       (cvmode (state g))(1 := CVMode_of_key key)\<rparr>\<rparr>))
           else if key = KEY_CVB then
             map_option autosave
               (resetCVState 1
                  (g\<lparr>state := (state g)\<lparr>cvmode := (cvmode (state g))(1 := cvoff)\<rparr>\<rparr>))
           else if key = KEY_HOME then Some (g\<lparr>mode := normal\<rparr>)
           else Some g)
      | load \<Rightarrow>
          (if key < 12 then
             map_option (\<lambda>g. autosave (g\<lparr>mode := normal\<rparr>)) (loadScale key g)
           else if key = KEY_HOME then Some (g\<lparr>mode := normal\<rparr>)
           else Some g)
      | save \<Rightarrow>
          (if key < 12 then
             map_option (\<lambda>g. g\<lparr>mode := normal\<rparr>) (saveScale_rotated key g)
           else if key = KEY_HOME then Some (g\<lparr>mode := normal\<rparr>)
           else Some g)
      | triggerdelaymenu \<Rightarrow>
          (if key < 12 then
             Some (autosave (g\<lparr>state := (state g)\<lparr>triggerdelay := key\<rparr>\<rparr>))
           else if key = KEY_HOME then Some (g\<lparr>mode := normal\<rparr>)
           else Some g))"

section \<open>The state at power-up\<close>

text \<open>
  The initialisers of Core.ino, the gate length and the registers as the setup routines
  leave them, and an EEPROM that holds zeros (all scale banks empty).
\<close>

definition state_init :: PersistentState where
  "state_init =
     \<lparr>scale = 0xAD50, gatelengthindex = 0, rotatesemitones = 0, transposesemitones = 0,
      transposeBsemitones = 0, offsetsemitones = 0, offsetBsemitones = 0,
      gatelegato = False, qmode = qmnearest, triggerdelay = 0, cvmode = (\<lambda>i. cvoff)\<rparr>"

definition globals_init :: globals where
  "globals_init =
     \<lparr>state = state_init, rotatedscale = 0xAD50, mode = normal, keyboardoctaves = 0,
      keyboardsemitones = 0, keyboardtriggered = 0, rotatesemitonesCV = 0,
      transposesemitonesCV = (\<lambda>i. 0), offsetsemitonesCV = (\<lambda>i. 0), gatelength = 5,
      cvgatelengthindex = 0, cvgatelengthremainder = 0, autosavecounter = 0,
      eeprom = (\<lambda>a. 0), eebusy = False\<rparr>"

definition channels_init :: channels where
  "channels_init =
     \<lparr>outval = (\<lambda>i. 0), lastgateoutval = (\<lambda>i. 0), gatecounter = (\<lambda>i. 0),
      freerunning = (\<lambda>i. True), triggercounter = (\<lambda>i. 0), triggerdelay_st = (\<lambda>i. 0),
      GATE = (\<lambda>i. False), DAC = (\<lambda>i. 0), EIFR = (\<lambda>i. False)\<rparr>"

definition cvstatics_init :: cvstatics where
  "cvstatics_init = \<lparr>CV = (\<lambda>i. 0), CVquantized = (\<lambda>i. 0)\<rparr>"

section \<open>Runs of the channel processor\<close>

text \<open>
  What happens to the statics and registers of \<open>processChannel\<close> over time: the ADC
  interrupt calls \<open>processChannel\<close> for a channel, with the globals as the other
  contexts have left them by then, or the hardware latches a falling edge in \<open>EIFR\<close>.
  A run lists the states it passes through, the first one included; it is \<open>None\<close>
  where a call leaves the result to memory outside \<open>mod12table\<close>.
\<close>

datatype event = Sample globals nat int16 bool | Edge nat

fun occur :: "channels \<Rightarrow> event \<Rightarrow> channels option" where
  "occur c (Sample g i newadcval din) = map_option snd (processChannel g c i newadcval din)"
| "occur c (Edge i) = Some (c\<lparr>EIFR := (EIFR c)(i := True)\<rparr>)"

fun run :: "channels \<Rightarrow> event list \<Rightarrow> channels list option" where
  "run c [] = Some [c]"
| "run c (e # es) =
     (case occur c e of
        None \<Rightarrow> None
      | Some c' \<Rightarrow> map_option ((#) c) (run c' es))"

text \<open>The number of times the gate output of channel \<open>i\<close> goes from low to high.\<close>

fun gate_pulses :: "nat \<Rightarrow> channels list \<Rightarrow> nat" where
  "gate_pulses i (a # b # cs) =
     (if \<not> GATE a i \<and> GATE b i then 1 else 0) + gate_pulses i (b # cs)"
| "gate_pulses i cs = 0"

section \<open>Key presses and auxiliary samples in sequence\<close>

text \<open>
  What the front panel and the auxiliary inputs do to the globals over time: a key goes
  down (with or without the shift key held), or the ADC interrupt calls \<open>processCV\<close>
  with a sample of auxiliary input \<open>i\<close>.
\<close>

datatype input = Key byte bool | CVSample nat int16

fun receive :: "globals \<times> cvstatics \<Rightarrow> input \<Rightarrow> (globals \<times> cvstatics) option" where
  "receive (g, s) (Key key shift) = map_option (\<lambda>g. (g, s)) (keyDownEvent key shift g)"
| "receive (g, s) (CVSample i newadcval) = processCV g s i newadcval"

fun receive_all ::
  "globals \<times> cvstatics \<Rightarrow> input list \<Rightarrow> (globals \<times> cvstatics) option" where
  "receive_all gs [] = Some gs"
| "receive_all gs (e # es) = Option.bind (receive gs e) (\<lambda>gs. receive_all gs es)"

section \<open>Notions used to state the properties\<close>

text \<open>
  Position \<open>k\<close> of the octave (0 to 11) is enabled in a scale word when bit \<open>15 - k\<close> is
  set: the test \<open>(localscale << k) & bitmask\<close> of the quantizers.
\<close>

definition enabled :: "uint16 \<Rightarrow> nat \<Rightarrow> bool" where
  "enabled rs k = (push_bit k rs AND bitmask \<noteq> 0)"

text \<open>The enabled positions of a scale word in ascending order.\<close>

definition enabled_notes :: "uint16 \<Rightarrow> nat list" where
  "enabled_notes rs = filter (enabled rs) [0..<12]"

text \<open>
  Equal spacing in the words of the specification, to be compared with \<open>quantizeEqual\<close>.
  A semitone is 8 ADC counts and an octave 96. The quantizers take position 0 of the
  scale for the notes with \<open>note + 8\<close> divisible by 12, so an octave of the scale starts
  at the samples 32, 128, 224 and so on, at the semitones 4, 16, 28. The position of a
  sample is its distance from the start of its octave, 0 to 95.
\<close>

definition octave_position :: "int16 \<Rightarrow> nat" where
  "octave_position adcval = nat ((sint adcval - 32) mod 96)"

text \<open>The semitone at which the octave of a sample starts.\<close>

definition octave_start :: "int16 \<Rightarrow> byte" where
  "octave_start adcval = word_of_int (4 + 12 * ((sint adcval - 32) div 96))"

text \<open>
  The enabled note whose rank is \<open>floor(position * count / 96)\<close>, in the octave of the
  sample.
\<close>

definition spec_quantizeEqual :: "uint16 \<Rightarrow> int16 \<Rightarrow> byte" where
  "spec_quantizeEqual rs adcval =
     (let ns = enabled_notes rs
      in octave_start adcval + of_nat (ns ! (octave_position adcval * length ns div 96)))"

section \<open>The empty scale\<close>

text \<open>
  C3. When the rotated scale is 0 (no note enabled), each of \<open>quantizeNearest\<close>,
  \<open>quantizeSkip\<close> and \<open>quantizeEqual\<close> returns the sentinel 255, which is at least
  128, for every input sample.
\<close>

theorem empty_scale_sentinel:
  "quantizeNearest 0 adcval = Some 255 \<and> quantizeSkip 0 adcval = Some 255 \<and>
   quantizeEqual 0 adcval = Some 255 \<and> (128 :: byte) \<le> 255"
  by (simp add: quantizeNearest_def quantizeSkip_def quantizeEqual_def Let_def)

section \<open>Rotation is invertible\<close>

subsection \<open>The rotation as a statement about bits\<close>

lemma bit_FFF0_int: "bit (0xFFF0 :: int) n \<longleftrightarrow> 4 \<le> n \<and> n < 16"
proof -
  have e: "(0xFFF0 :: int) = push_bit 4 (mask 12)" by (simp add: mask_eq_exp_minus_1)
  have "bit (push_bit 4 (mask 12) :: int) n \<longleftrightarrow> 4 \<le> n \<and> n < 16"
    by (auto simp only: bit_push_bit_iff bit_mask_iff possible_bit_int)
  then show ?thesis by (simp only: e)
qed

lemma bit_FFF0: "bit (0xFFF0 :: uint16) n \<longleftrightarrow> 4 \<le> n \<and> n < 16"
  by (auto simp add: bit_FFF0_int)

lemma low4_iff: "(S :: uint16) AND 0xF = 0 \<longleftrightarrow> (\<forall>n<4. \<not> bit S n)"
proof -
  have m: "(0xF :: uint16) = mask 4" by (simp add: mask_eq_exp_minus_1)
  have "(S AND mask 4 = 0) \<longleftrightarrow> (\<forall>n<4. \<not> bit S n)"
  proof
    assume a: "S AND mask 4 = 0"
    show "\<forall>n<4. \<not> bit S n"
    proof (intro allI impI)
      fix n :: nat assume "n < 4"
      have "\<not> bit (S AND mask 4) n" using a by simp
      then show "\<not> bit S n" using \<open>n < 4\<close> by (simp add: bit_simps)
    qed
  next
    assume "\<forall>n<4. \<not> bit S n"
    then show "S AND mask 4 = 0"
      by (intro bit_word_eqI) (auto simp: bit_simps)
  qed
  then show ?thesis by (simp only: m)
qed

lemma bit_rot:
  assumes "0 < r" "r < 12"
  shows "bit ((drop_bit r (S::uint16) OR push_bit (12 - r) S) AND 0xFFF0) n \<longleftrightarrow>
         4 \<le> n \<and> n < 16 \<and> (bit S (n + r) \<or> (12 - r \<le> n \<and> bit S (n - (12 - r))))"
  using assms by (auto simp: bit_simps bit_FFF0_int add.commute dest: bit_imp_le_length)


lemma rotate_scale_inverse:
  assumes low: "(S::uint16) AND 0xF = 0" and r: "0 < r" "r < 12"
  shows "(drop_bit (12 - r) ((drop_bit r S OR push_bit (12 - r) S) AND 0xFFF0) OR
          push_bit (12 - (12 - r)) ((drop_bit r S OR push_bit (12 - r) S) AND 0xFFF0)) AND 0xFFF0 = S"
proof -
  define R where "R = (drop_bit r S OR push_bit (12 - r) S) AND 0xFFF0"
  have l: "\<And>k. k < 4 \<Longrightarrow> \<not> bit S k" using low by (simp add: low4_iff)
  have h: "\<And>k. 16 \<le> k \<Longrightarrow> \<not> bit S k" by (auto dest: bit_imp_le_length)
  have r': "0 < 12 - r" "12 - r < 12" using r by auto
  have R: "\<And>k. bit R k \<longleftrightarrow>
         4 \<le> k \<and> k < 16 \<and> (bit S (k + r) \<or> (12 - r \<le> k \<and> bit S (k - (12 - r))))"
    unfolding R_def by (rule bit_rot [OF r])
  have "(drop_bit (12 - r) R OR push_bit (12 - (12 - r)) R) AND 0xFFF0 = S"
  proof (rule bit_word_eqI)
    fix n assume n: "n < LENGTH(16)"
    have T: "bit ((drop_bit (12 - r) R OR push_bit (12 - (12 - r)) R) AND 0xFFF0) n \<longleftrightarrow>
       4 \<le> n \<and> n < 16 \<and> (bit R (n + (12 - r)) \<or> (12 - (12 - r) \<le> n \<and> bit R (n - (12 - (12 - r)))))"
      by (rule bit_rot [OF r'])
    show "bit ((drop_bit (12 - r) R OR push_bit (12 - (12 - r)) R) AND 0xFFF0) n = bit S n"
    proof (cases "n < 4")
      case True
      then show ?thesis unfolding T using l by auto
    next
      case n4: False
      show ?thesis
      proof (cases "r + 4 \<le> n")
        case True
        have a: "\<not> (n + (12 - r) < 16)" using True r by auto
        have b: "n - (12 - (12 - r)) = n - r" "12 - (12 - r) \<le> n" using r True by auto
        have c: "\<not> bit S (n - r + r) \<Longrightarrow> \<not> bit S n" using True by simp
        have "n - r - (12 - r) < 4" using n r by auto
        then have d: "\<not> bit S (n - r - (12 - r))" by (rule l)
        have e: "n - r + r = n" using True by simp
        show ?thesis unfolding T R using a b d e n n4 True r by auto
      next
        case False
        have a: "n + (12 - r) < 16" "4 \<le> n + (12 - r)" using False r n4 by auto
        have b: "\<not> bit S (n + (12 - r) + r)" using n4 r by (intro h) auto
        have c: "12 - r \<le> n + (12 - r)" "n + (12 - r) - (12 - r) = n" by auto
        have d: "\<not> (4 \<le> n - (12 - (12 - r)))" using False r by auto
        show ?thesis unfolding T R using a b c d n n4 r by auto
      qed
    qed
  qed
  then show ?thesis unfolding R_def .
qed

subsection \<open>The modulo-12 lookup inside its table\<close>

lemma mod12_all: "list_all (\<lambda>n. mod12 (of_nat n) = Some (of_nat (n mod 12))) [0..<256]"
  by code_simp

lemma mod12_of_nat: "n < 256 \<Longrightarrow> mod12 (of_nat n) = Some (of_nat (n mod 12))"
  using mod12_all by (simp add: list_all_iff)


lemma mod12_rotation_all:
  "list_all (\<lambda>a. list_all (\<lambda>b.
      mod12 (scast (of_nat a :: schar) + ucast (of_nat b :: byte)) =
        Some (ucast (of_nat a + of_nat b :: byte) mod 12)) [0..<12]) [0..<12]"
  by code_simp

lemma mod12_rotation:
  assumes "(a :: schar) < 12" "(b :: byte) < 12"
  shows "mod12 (scast a + ucast b) = Some (ucast (a + b) mod 12)"
proof -
  have A: "\<forall>x\<in>set [0..<12]. \<forall>y\<in>set [0..<12].
      mod12 (scast (of_nat x :: schar) + ucast (of_nat y :: byte)) =
        Some (ucast (of_nat x + of_nat y :: byte) mod 12)"
    using mod12_rotation_all unfolding list_all_iff .
  have ma: "unat a \<in> set [0..<12]" and mb: "unat b \<in> set [0..<12]"
    using assms by (simp_all add: word_less_nat_alt)
  have "mod12 (scast (of_nat (unat a) :: schar) + ucast (of_nat (unat b) :: byte)) =
        Some (ucast (of_nat (unat a) + of_nat (unat b) :: byte) mod 12)"
    using A ma mb by blast
  then show ?thesis by (simp only: of_nat_unat ucast_id)
qed

lemma byte_mod12_all:
  "list_all (\<lambda>n. (ucast ((ucast (of_nat n :: byte) :: int16) mod 12) :: byte) = of_nat n mod 12) [0..<256]"
  by code_simp

lemma byte_mod12: "(ucast ((ucast (x :: byte) :: int16) mod 12) :: byte) = x mod 12"
proof -
  have A: "\<forall>n\<in>set [0..<256]. (ucast ((ucast (of_nat n :: byte) :: int16) mod 12) :: byte) = of_nat n mod 12"
    using byte_mod12_all unfolding list_all_iff .
  have "unat x \<in> set [0..<256]" using unsigned_less [of x] by simp
  then have "(ucast ((ucast (of_nat (unat x) :: byte) :: int16) mod 12) :: byte) = of_nat (unat x) mod 12"
    using A by blast
  then show ?thesis by (simp only: of_nat_unat ucast_id)
qed

subsection \<open>updateRotation for rotations in range\<close>

lemma updateRotation_in_range:
  assumes "rotatesemitones (state g) < 12" "rotatesemitonesCV g < 12"
  shows "updateRotation g =
           Some (g\<lparr>rotatedscale := rotate_scale (scale (state g))
                  ((rotatesemitones (state g) + rotatesemitonesCV g) mod 12)\<rparr>)"
  by (simp add: updateRotation_def mod12_rotation [OF assms] Let_def byte_mod12)

lemma rotate_scale_low4:
  "S AND 0xF = 0 \<Longrightarrow> rotate_scale S r AND 0xF = 0"
  by (simp add: rotate_scale_def and.assoc)

lemma inverse_rotation_all:
  "list_all (\<lambda>n. (12 - of_nat n :: byte) mod 12 = 12 - of_nat n \<and> unat (12 - of_nat n :: byte) = 12 - n
       \<and> (0 :: byte) < 12 - of_nat n \<and> (12 - of_nat n :: byte) < 12) [1..<12]"
  by code_simp

lemma rotate_scale_round_trip:
  assumes low: "S AND 0xF = 0" and r: "r < 12"
  shows "rotate_scale (rotate_scale S r) ((12 - r) mod 12) = S"
proof (cases "r = 0")
  case True
  then show ?thesis by (simp add: rotate_scale_def)
next
  case False
  have u: "0 < unat r" "unat r < 12" using False r by (simp_all add: unat_gt_0 word_less_nat_alt)
  have A: "\<forall>n\<in>set [1..<12]. (12 - of_nat n :: byte) mod 12 = 12 - of_nat n \<and> unat (12 - of_nat n :: byte) = 12 - n
       \<and> (0 :: byte) < 12 - of_nat n \<and> (12 - of_nat n :: byte) < 12"
    using inverse_rotation_all unfolding list_all_iff .
  have "unat r \<in> set [1..<12]" using u by simp
  then have "(12 - of_nat (unat r) :: byte) mod 12 = 12 - of_nat (unat r) \<and> unat (12 - of_nat (unat r) :: byte) = 12 - unat r
       \<and> (0 :: byte) < 12 - of_nat (unat r) \<and> (12 - of_nat (unat r) :: byte) < 12"
    using A by blast
  then have m: "(12 - r) mod 12 = 12 - r" "unat (12 - r) = 12 - unat r" "0 < 12 - r"
    by (simp_all only: of_nat_unat ucast_id)
  have p: "0 < r" using False by (simp add: word_greater_zero_iff)
  show ?thesis
    unfolding rotate_scale_def m using m p rotate_scale_inverse [OF low u] by simp
qed

text \<open>
  C5. For a scale word \<open>S\<close> whose low 4 bits are zero and a rotation \<open>r\<close> in 0..11,
  \<open>updateRotation\<close> with rotation \<open>r\<close> produces a rotated scale whose low 4 bits are
  zero, and \<open>updateRotation\<close> on that result with rotation \<open>(12 - r) mod 12\<close> gives
  \<open>S\<close> back.
\<close>

theorem rotation_invertible:
  assumes "scale (state g) AND 0xF = 0" and "rotatesemitones (state g) = r" and "r < 12"
    and "rotatesemitonesCV g = 0"
  shows "\<exists>g1 g2. updateRotation g = Some g1 \<and> rotatedscale g1 AND 0xF = 0 \<and>
           updateRotation (g1\<lparr>state := (state g1)\<lparr>scale := rotatedscale g1,
                                   rotatesemitones := (12 - r) mod 12\<rparr>\<rparr>) = Some g2 \<and>
           rotatedscale g2 = scale (state g)"
proof -
  have r2: "(12 - r) mod 12 < 12" by (simp add: word_mod_less_divisor)
  have e1: "r mod 12 = r" using assms(3) by (simp add: mod_word_less)
  have e2: "(12 - r) mod 12 mod 12 = (12 - r) mod 12" using r2 by (rule mod_word_less)
  show ?thesis
    using assms r2
    by (simp add: updateRotation_in_range rotate_scale_low4 rotate_scale_round_trip e1 e2)
qed

theorem rotation_invertible_witness:
  "scale (state (globals_init\<lparr>state := state_init\<lparr>rotatesemitones := 3\<rparr>\<rparr>)) AND 0xF = 0 \<and>
   (3 :: schar) < 12 \<and>
   (\<exists>g1 g2.
      updateRotation (globals_init\<lparr>state := state_init\<lparr>rotatesemitones := 3\<rparr>\<rparr>) = Some g1 \<and>
      rotatedscale g1 = 0xB5A0 \<and> rotatedscale g1 AND 0xF = 0 \<and>
      updateRotation (g1\<lparr>state := (state g1)\<lparr>scale := rotatedscale g1,
                              rotatesemitones := (12 - 3) mod 12\<rparr>\<rparr>) = Some g2 \<and>
      rotatedscale g2 = 0xAD50)"
proof -
  let ?g = "globals_init\<lparr>state := state_init\<lparr>rotatesemitones := 3\<rparr>\<rparr>"
  have a: "scale (state ?g) AND 0xF = 0" by (simp add: state_init_def)
  have b: "rotatesemitones (state ?g) = 3" by simp
  have c: "(3 :: schar) < 12" by simp
  have d: "rotatesemitonesCV ?g = 0" by (simp add: globals_init_def)
  have e: "updateRotation ?g = Some (?g\<lparr>rotatedscale := 0xB5A0\<rparr>)"
    using updateRotation_in_range [of ?g]
    by (simp add: globals_init_def state_init_def rotate_scale_def)
  show ?thesis
    using rotation_invertible [OF a b c d] a c e by (simp add: state_init_def)
qed

section \<open>The scale banks outside 0..11\<close>

text \<open>
  C10. For every bank index of 12 or more, \<open>loadScale\<close> and \<open>saveScale\<close> do nothing:
  \<open>loadScale\<close> leaves the scale, the rotation and the rotated scale as they are and
  recomputes nothing, and \<open>saveScale\<close> writes to no bank. No global changes at all.
\<close>

theorem bank_index_out_of_range:
  assumes "12 \<le> index"
  shows "loadScale index g = Some g \<and> saveScale index tscale g = Some g"
  using assms by (simp add: loadScale_def saveScale_def not_less [symmetric])

theorem bank_index_out_of_range_witness:
  "(12 :: byte) \<le> 12 \<and> loadScale 12 globals_init = Some globals_init \<and>
   saveScale 12 0xAD50 globals_init = Some globals_init"
  using bank_index_out_of_range [of 12 globals_init "0xAD50"] by simp

section \<open>The gate length\<close>

text \<open>
  The example of the specification: index 0 and remainder 20 give
  \<open>5 + 20 * 45 div 39 = 28\<close>.
\<close>

lemma gatelength_example:
  "gatelength (updateGatelength (globals_init\<lparr>cvgatelengthremainder := 20\<rparr>)) = 28"
  by (simp add: updateGatelength_def globals_init_def state_init_def gatelengths_def
      intmap_def sdiv16_def signed_divide_int_def Let_def word_sless_alt)

text \<open>
  Outside 0..10 the combined index is clamped to the first and the last table entry.
  For a combined index of 0 to 7 and a remainder of 0 to 39 the product fits into an
  \<open>int\<close>, and the interpolation is the exact one.
\<close>

lemma intmap_exact_all:
  "list_all (\<lambda>i. list_all (\<lambda>r.
      sint (gatelengths ! i +
            intmap (of_nat r) 0 39 0 (gatelengths ! (i + 1) - gatelengths ! i)) =
      sint (gatelengths ! i) +
        int r * (sint (gatelengths ! (i + 1)) - sint (gatelengths ! i)) div 39)
      [0..<40]) [0..<8]"
  by code_simp

lemma gatelength_interpolation_below_8:
  assumes "i < 8" "r < 40"
  shows "sint (gatelengths ! i +
            intmap (of_nat r) 0 39 0 (gatelengths ! (i + 1) - gatelengths ! i)) =
         sint (gatelengths ! i) +
           int r * (sint (gatelengths ! (i + 1)) - sint (gatelengths ! i)) div 39"
proof -
  have A: "\<forall>i\<in>set [0..<8]. \<forall>r\<in>set [0..<40].
      sint (gatelengths ! i +
            intmap (of_nat r) 0 39 0 (gatelengths ! (i + 1) - gatelengths ! i)) =
      sint (gatelengths ! i) +
        int r * (sint (gatelengths ! (i + 1)) - sint (gatelengths ! i)) div 39"
    using intmap_exact_all unfolding list_all_iff .
  have "i \<in> set [0..<8]" "r \<in> set [0..<40]" using assms by simp_all
  then show ?thesis using A by blast
qed

lemma updateGatelength_clamps:
  "(ucast (gatelengthindex (state g)) :: int16) + cvgatelengthindex g <s 0 \<Longrightarrow>
     gatelength (updateGatelength g) = 5"
  "10 <s (ucast (gatelengthindex (state g)) :: int16) + cvgatelengthindex g \<Longrightarrow>
     gatelength (updateGatelength g) = 10000"
  by (auto simp: updateGatelength_def Let_def gatelengths_def word_sless_alt)

text \<open>
  C9. The claim: for a combined index \<open>i\<close> in 0..10 the gate length is
  \<open>table[i] + floor(remainder * (table[i+1] - table[i]) / 39)\<close>. At index 10 and
  remainder 20 that is \<open>5887 + floor(20 * 4113 / 39) = 7996\<close>. The code forms the product
  \<open>20 * 4113 = 82260\<close> in a 16-bit \<open>int\<close>, where it wraps to 16724, and sets the gate
  length to \<open>5887 + 428 = 6315\<close>.
\<close>

theorem gatelength_interpolation_overflow:
  "gatelength (updateGatelength
      (globals_init\<lparr>state := state_init\<lparr>gatelengthindex := 10\<rparr>,
                     cvgatelengthremainder := 20\<rparr>)) = 6315 \<and>
   (5887 + 20 * (10000 - 5887) div 39 :: int) = 7996"
  by (simp add: updateGatelength_def globals_init_def state_init_def gatelengths_def
      intmap_def sdiv16_def signed_divide_int_def Let_def word_sless_alt)

section \<open>Candidates outside the DAC range\<close>

subsection \<open>What each stage of processChannel leaves alone\<close>

lemma trigger_stage_keeps [simp]:
  "outval (trigger_stage g c i din) = outval c"
  "lastgateoutval (trigger_stage g c i din) = lastgateoutval c"
  "GATE (trigger_stage g c i din) = GATE c"
  "DAC (trigger_stage g c i din) = DAC c"
  by (simp_all add: trigger_stage_def Let_def)

lemma gate_stage_keeps [simp]:
  "outval (gate_stage g c i) = outval c"
  "DAC (gate_stage g c i) = DAC c"
  by (simp_all add: gate_stage_def Let_def)

lemma candidate_stage_keeps:
  assumes "candidate_stage g c i newadcval = Some (candidate, trig, c')"
  shows "outval c' = outval c" "lastgateoutval c' = lastgateoutval c" "GATE c' = GATE c"
    "DAC c' = DAC c" "gatecounter c' = gatecounter c"
  using assms
  by (auto simp: candidate_stage_def Let_def split: if_splits option.splits)

lemma candidate_stage_in_range:
  assumes "candidate_stage g c i newadcval = Some (candidate, trig, c')" "mode g \<noteq> keyboard" "trig"
  shows "candidate < 128"
  using assms
  by (auto simp: candidate_stage_def Let_def split: if_splits option.splits)

lemma accept_stage_outval:
  "outval (snd (accept_stage g c i candidate trig)) =
     (if trig then (outval c)(i := candidate) else outval c)"
  by (simp add: accept_stage_def)

text \<open>
  Outside keyboard mode a candidate of 128 or more is never stored: the output value
  of the channel either stays or is below 128.
\<close>

lemma processChannel_holds_out_of_range:
  assumes "mode g \<noteq> keyboard" "processChannel g c i newadcval din = Some (g', c')"
  shows "outval c' i = outval c i \<or> outval c' i < 128"
proof -
  from assms(2) obtain candidate trig c1 where
    cs: "candidate_stage g c i newadcval = Some (candidate, trig, c1)"
    by (auto simp: processChannel_def split: option.splits)
  have c': "c' = trigger_stage (fst (accept_stage g c1 i candidate trig))
                   (gate_stage (fst (accept_stage g c1 i candidate trig))
                      (snd (accept_stage g c1 i candidate trig)) i) i din"
    using assms(2) cs by (simp add: processChannel_def Let_def split: prod.splits)
  have "outval c' = (if trig then (outval c)(i := candidate) else outval c)"
    unfolding c' by (simp add: accept_stage_outval candidate_stage_keeps [OF cs])
  then show ?thesis
    using candidate_stage_in_range [OF cs assms(1)] by auto
qed

text \<open>
  C2. The claim: in every mode, keyboard mode included, a candidate of 128 or more is
  not accepted, and the output stays in 0..127. In keyboard mode with semitone 11 and
  octave 5 the candidate is \<open>63 + 11 + 60 = 134\<close>; with \<open>keyboardtriggered > 0\<close> the
  code stores it in \<open>outval[0]\<close> and writes it to the DAC.
\<close>

theorem keyboard_accepts_out_of_range:
  "map_option (\<lambda>(g, c). (outval c 0, DAC c 0))
     (processChannel
        (globals_init\<lparr>mode := keyboard, keyboardsemitones := 11, keyboardoctaves := 5,
                       keyboardtriggered := 2\<rparr>)
        channels_init 0 0 False) = Some (134, 134) \<and> \<not> (134 :: byte) < 128"
  by (simp add: processChannel_def candidate_stage_def accept_stage_def gate_stage_def
      trigger_stage_def globals_init_def channels_init_def state_init_def Let_def
      gatedelay_def)

section \<open>When the hysteresis applies\<close>

text \<open>
  The claim C4 says that the hysteresis is suspended exactly in keyboard mode, and
  that in every other mode the quantizer input is the hysteresis-adjusted sample. It
  fails for a channel in triggered state: in normal mode, with \<open>freerunning[0]\<close>
  false, last output 0 and sample 100, the quantizer receives 100, while the
  hysteresis-adjusted sample is 99.
\<close>

theorem hysteresis_suspended_counterexample:
  "mode globals_init \<noteq> keyboard \<and>
   newvalhystoffset globals_init
     (channels_init\<lparr>freerunning := (freerunning channels_init)(0 := False)\<rparr>) 0 100 = 100 \<and>
   with_hysteresis
     (push_bit 3 (ucast (outval
        (channels_init\<lparr>freerunning := (freerunning channels_init)(0 := False)\<rparr>) 0)))
     100 = 99"
  by (simp add: globals_init_def channels_init_def state_init_def newvalhystoffset_def
      newvalhyst_def with_hysteresis_def hysteresis_def Let_def word_sless_alt)

text \<open>
  With \<open>hysteresis = 1\<close> the adjustment subtracts 1 from a sample above the old value
  and adds \<open>hysteresis - 1 = 0\<close> to one below it.
\<close>

lemma with_hysteresis_eq:
  "with_hysteresis oldval newadcval = (if oldval <s newadcval then newadcval - 1 else newadcval)"
  by (simp add: with_hysteresis_def hysteresis_def)

text \<open>
  C4, amended. The hysteresis around the last output value (minus 1 for a sample
  above it, plus 0 for one below) is applied exactly when the channel is free-running,
  whatever the menu mode; in every mode other than keyboard the quantizer input is
  that value plus the offsets, and the candidate is the transposed quantizer result.
\<close>

theorem hysteresis_when_freerunning:
  assumes "mode g \<noteq> keyboard"
  shows "map_option fst (candidate_stage g c i newadcval) =
           map_option (transposed g i)
             (quantize g
                ((if freerunning c i \<and> push_bit 3 (ucast (outval c i)) <s newadcval
                  then newadcval - 1 else newadcval) +
                 push_bit 3 (scast (offsetsemitones (state g)) +
                             scast (offsetsemitonesCV g i)) +
                 (if i = 1 then push_bit 3 (scast (offsetBsemitones (state g))) else 0)))"
proof -
  have h: "newvalhystoffset g c i newadcval =
          (if freerunning c i \<and> push_bit 3 (ucast (outval c i)) <s newadcval
           then newadcval - 1 else newadcval) +
          push_bit 3 (scast (offsetsemitones (state g)) + scast (offsetsemitonesCV g i)) +
          (if i = 1 then push_bit 3 (scast (offsetBsemitones (state g))) else 0)"
    by (simp add: newvalhystoffset_def newvalhyst_def with_hysteresis_eq Let_def)
  have "map_option fst (candidate_stage g c i newadcval) =
          map_option (transposed g i) (quantize g (newvalhystoffset g c i newadcval))"
    using assms
    by (cases "quantize g (newvalhystoffset g c i newadcval)")
       (auto simp add: candidate_stage_def Let_def)
  then show ?thesis by (simp only: h)
qed

theorem hysteresis_when_freerunning_witness:
  "mode globals_init \<noteq> keyboard \<and>
   map_option fst
     (candidate_stage globals_init
        (channels_init\<lparr>freerunning := (freerunning channels_init)(0 := False)\<rparr>) 0 100) =
   map_option (transposed globals_init 0) (quantize globals_init 100) \<and>
   map_option fst (candidate_stage globals_init channels_init 0 100) =
   map_option (transposed globals_init 0) (quantize globals_init 99)"
proof -
  have m: "mode globals_init \<noteq> keyboard" by (simp add: globals_init_def)
  show ?thesis
    using m hysteresis_when_freerunning [OF m, of
        "channels_init\<lparr>freerunning := (freerunning channels_init)(0 := False)\<rparr>" 0 100]
      hysteresis_when_freerunning [OF m, of channels_init 0 100]
    by (simp add: globals_init_def channels_init_def state_init_def word_sless_alt)
qed

section \<open>Reassigning the mode of an auxiliary input\<close>

lemmas key_defs = KEY_CVA_def KEY_CVB_def KEY_LOAD_def KEY_HOME_def MAX_CV_MODE_def

text \<open>
  What a reassignment does reset. A key press in the menu of auxiliary input \<open>i\<close>
  (\<open>cvA\<close> for 0, \<open>cvB\<close> for 1) that sets \<open>state.cvmode[i]\<close> -- a key up to
  \<open>MAX_CV_MODE\<close>, \<open>KEY_LOAD\<close>, or the key of the menu itself, which switches the input
  off -- leaves the auxiliary rotation at 0, \<open>transposesemitonesCV[i]\<close> and
  \<open>offsetsemitonesCV[i]\<close> at 0, the auxiliary gate-length index and remainder at 0,
  and the rotated scale recomputed from the unchanged scale and the base rotation alone.
  The base rotation is in 0..11.
\<close>

lemma cv_mode_reassignment:
  assumes "(mode g = cvA \<and> i = 0 \<and> off = KEY_CVA) \<or> (mode g = cvB \<and> i = 1 \<and> off = KEY_CVB)"
    and "key \<le> MAX_CV_MODE \<or> key = KEY_LOAD \<or> key = off"
    and "rotatesemitones (state g) < 12"
  shows "\<exists>g'. keyDownEvent key shift g = Some g' \<and>
           cvmode (state g') i = (if key = off then cvoff else CVMode_of_key key) \<and>
           rotatesemitonesCV g' = 0 \<and> transposesemitonesCV g' i = 0 \<and>
           offsetsemitonesCV g' i = 0 \<and> cvgatelengthindex g' = 0 \<and>
           cvgatelengthremainder g' = 0 \<and> scale (state g') = scale (state g) \<and>
           rotatedscale g' = rotate_scale (scale (state g)) (rotatesemitones (state g))"
proof -
  have e: "rotatesemitones (state g) mod 12 = rotatesemitones (state g)"
    using assms(3) by (simp add: mod_word_less)
  have u: "\<And>h. rotatesemitones (state h) = rotatesemitones (state g) \<Longrightarrow>
             scale (state h) = scale (state g) \<Longrightarrow>
             updateRotation (h\<lparr>rotatesemitonesCV := 0\<rparr>) =
               Some (h\<lparr>rotatesemitonesCV := 0,
                       rotatedscale := rotate_scale (scale (state g)) (rotatesemitones (state g))\<rparr>)"
    using assms(3) by (simp add: updateRotation_in_range e)
  from assms(1) show ?thesis
  proof
    assume a: "mode g = cvA \<and> i = 0 \<and> off = KEY_CVA"
    show ?thesis
      using a assms(2)
      by (auto simp: keyDownEvent_def resetCVState_def u autosave_def key_defs CVMode_of_key_def)
  next
    assume a: "mode g = cvB \<and> i = 1 \<and> off = KEY_CVB"
    show ?thesis
      using a assms(2)
      by (auto simp: keyDownEvent_def resetCVState_def u autosave_def key_defs CVMode_of_key_def)
  qed
qed

text \<open>An instance: input A is set to the rotation mode while each of its overlays is set.\<close>

lemma cv_mode_reassignment_example:
  "mode (globals_init\<lparr>mode := cvA, rotatedscale := 0xB5A0, rotatesemitonesCV := 3,
            transposesemitonesCV := (transposesemitonesCV globals_init)(0 := 7),
            offsetsemitonesCV := (offsetsemitonesCV globals_init)(0 := 2),
            cvgatelengthindex := 4, cvgatelengthremainder := 17\<rparr>) = cvA \<and>
   (1 :: byte) \<le> MAX_CV_MODE \<and>
   (\<exists>g'. keyDownEvent 1 False
           (globals_init\<lparr>mode := cvA, rotatedscale := 0xB5A0, rotatesemitonesCV := 3,
              transposesemitonesCV := (transposesemitonesCV globals_init)(0 := 7),
              offsetsemitonesCV := (offsetsemitonesCV globals_init)(0 := 2),
              cvgatelengthindex := 4, cvgatelengthremainder := 17\<rparr>) = Some g' \<and>
         cvmode (state g') 0 = cvrotate \<and> rotatesemitonesCV g' = 0 \<and>
         transposesemitonesCV g' 0 = 0 \<and> offsetsemitonesCV g' 0 = 0 \<and>
         cvgatelengthindex g' = 0 \<and> cvgatelengthremainder g' = 0 \<and>
         scale (state g') = 0xAD50 \<and> rotatedscale g' = 0xAD50)"
proof -
  let ?g = "globals_init\<lparr>mode := cvA, rotatedscale := 0xB5A0, rotatesemitonesCV := 3,
              transposesemitonesCV := (transposesemitonesCV globals_init)(0 := 7),
              offsetsemitonesCV := (offsetsemitonesCV globals_init)(0 := 2),
              cvgatelengthindex := 4, cvgatelengthremainder := 17\<rparr>"
  have a: "(mode ?g = cvA \<and> (0 :: nat) = 0 \<and> KEY_CVA = KEY_CVA) \<or>
           (mode ?g = cvB \<and> (0 :: nat) = 1 \<and> KEY_CVA = KEY_CVB)" by simp
  have b: "(1 :: byte) \<le> MAX_CV_MODE \<or> (1 :: byte) = KEY_LOAD \<or> (1 :: byte) = KEY_CVA"
    by (simp add: MAX_CV_MODE_def)
  have c: "rotatesemitones (state ?g) < 12" by (simp add: globals_init_def state_init_def)
  have d: "rotate_scale (scale (state ?g)) (rotatesemitones (state ?g)) = 0xAD50"
    by (simp add: globals_init_def state_init_def rotate_scale_def)
  have e: "scale (state ?g) = 0xAD50" by (simp add: globals_init_def state_init_def)
  have f: "(1 :: byte) \<noteq> KEY_CVA" "CVMode_of_key 1 = cvrotate"
    by (simp_all add: KEY_CVA_def CVMode_of_key_def)
  show ?thesis
    using cv_mode_reassignment [OF a b c, of False]
    by (simp only: d e f if_False) (simp add: MAX_CV_MODE_def globals_init_def state_init_def rotate_scale_def)
qed

text \<open>
  C7. A reassignment does not leave every contribution of the input neutral. From
  power-up, shift and \<open>KEY_CVA\<close> open the menu of input A, key 2 selects the global
  transpose, a sample of 568 on input A sets \<open>transposesemitonesCV[0]\<close> and
  \<open>transposesemitonesCV[1]\<close> to 7, and \<open>KEY_CVA\<close> switches input A off.
  \<open>resetCVState(0)\<close> clears entry 0 only: both inputs are off and entry 1 still is 7,
  so channel B puts out 55 for the sample 392, for which it puts out 48 at power-up.
  The comment on \<open>resetCVState\<close> says that any effect of the old mode is removed.
\<close>

theorem cv_reassignment_keeps_other_channel:
  "Option.bind
     (receive_all (globals_init, cvstatics_init)
        [Key KEY_CVA True, Key 2 False, CVSample 0 568, Key KEY_CVA False])
     (\<lambda>(g, s). map_option
        (\<lambda>(g', c). (cvmode (state g) 0, cvmode (state g) 1,
                     transposesemitonesCV g 0, transposesemitonesCV g 1, outval c 1))
        (processChannel g channels_init 1 392 False)) = Some (cvoff, cvoff, 0, 7, 55) \<and>
   map_option (\<lambda>(g', c). outval c 1) (processChannel globals_init channels_init 1 392 False)
     = Some 48"
  by code_simp

text \<open>
  The same with two modes in a row: input A on the global transpose (sample 568), then
  on the global offset (sample 552), then off. Channel B keeps the transposition 7 and
  the offset 5.
\<close>

lemma cv_reassignment_keeps_both_overlays:
  "map_option
     (\<lambda>(g, s). (cvmode (state g) 0, cvmode (state g) 1,
                 transposesemitonesCV g 0, transposesemitonesCV g 1,
                 offsetsemitonesCV g 0, offsetsemitonesCV g 1))
     (receive_all (globals_init, cvstatics_init)
        [Key KEY_CVA True, Key 2 False, CVSample 0 568, Key 4 False, CVSample 0 552,
         Key KEY_CVA False])
   = Some (cvoff, cvoff, 0, 7, 0, 5)"
  by code_simp

text \<open>
  The gate length: \<open>resetCVState\<close> clears the auxiliary index and remainder and does
  not call \<open>updateGatelength\<close>. With input A on the gate length, a sample of 532 gives
  the remainder 20 and the gate length 28; after the input is switched off the gate
  length still is 28, where \<open>updateGatelength\<close> would give 5.
\<close>

lemma cv_reassignment_keeps_gatelength:
  "map_option
     (\<lambda>(g, s). (cvmode (state g) 0, cvgatelengthindex g, cvgatelengthremainder g,
                 gatelength g, gatelength (updateGatelength g)))
     (receive_all (globals_init, cvstatics_init)
        [Key KEY_CVA True, Key 0 False, CVSample 0 532, Key KEY_CVA False])
   = Some (cvoff, 0, 0, 28, 5)"
  by code_simp

section \<open>Equal spacing\<close>

subsection \<open>Enabled positions and the loop that lists them\<close>

lemma and_exp_eq_exp_iff: "((x :: uint16) AND 2 ^ n = 2 ^ n) \<longleftrightarrow> bit x n \<or> \<not> n < 16"
  by (auto simp: bit_eq_iff [where 'a = "16 word"] bit_and_iff bit_exp_iff)

lemma bitmask_test: "(x AND bitmask \<noteq> 0) \<longleftrightarrow> bit x 15"
proof -
  have e: "bitmask = 2 ^ 15" by (simp add: bitmask_def)
  show ?thesis unfolding e using and_exp_eq_0_iff_not_bit [of x 15] by blast
qed

lemma bitmask_test_eq: "(x AND bitmask = bitmask) \<longleftrightarrow> (x AND bitmask \<noteq> 0)"
proof -
  have e: "bitmask = 2 ^ 15" by (simp add: bitmask_def)
  have "(x AND bitmask = bitmask) \<longleftrightarrow> bit x 15"
    unfolding e using and_exp_eq_exp_iff [of x 15] by simp
  then show ?thesis by (simp only: bitmask_test)
qed

lemma enabled_iff_bit: "k \<le> 15 \<Longrightarrow> enabled rs k \<longleftrightarrow> bit rs (15 - k)"
  by (simp add: enabled_def bitmask_test bit_simps)

lemma enabled_shift: "(push_bit j w AND bitmask \<noteq> 0) = enabled w j"
  by (simp add: enabled_def)

lemma push_bit_Suc_scale: "push_bit 1 (push_bit j (w :: uint16)) = push_bit (Suc j) w"
  by simp

lemma collect_notes_spec:
  assumes "j \<le> 12" "length xs = 12" "n + (12 - j) \<le> 12"
  shows "case collect_notes j (push_bit j w) xs n of
           (xs', n') \<Rightarrow>
             n' = n + length (filter (enabled w) [j..<12]) \<and> length xs' = 12 \<and>
             take n' xs' = take n xs @ map of_nat (filter (enabled w) [j..<12])"
  using assms
proof (induction "12 - j" arbitrary: j xs n)
  case 0
  then show ?case by (subst collect_notes.simps) simp
next
  case (Suc k)
  then have j: "j < 12" by simp
  have u: "[j..<12] = j # [Suc j..<12]" using j by (rule upt_conv_Cons)
  have k: "k = 12 - Suc j" using Suc by simp
  show ?case
  proof (cases "enabled w j")
    case True
    have n: "n < 12" using Suc j by simp
    have ih: "case collect_notes (Suc j) (push_bit (Suc j) w) (xs[n := of_nat j]) (n + 1) of
           (xs', n') \<Rightarrow>
             n' = (n + 1) + length (filter (enabled w) [Suc j..<12]) \<and> length xs' = 12 \<and>
             take n' xs' = take (n + 1) (xs[n := of_nat j]) @ map of_nat (filter (enabled w) [Suc j..<12])"
      using Suc.prems j by (intro Suc.hyps(1) k) auto
    have t: "take (Suc n) (xs[n := of_nat j]) = take n xs @ [of_nat j]"
      using n Suc.prems by (simp add: take_Suc_conv_app_nth)
    show ?thesis
      using ih True j
      by (subst collect_notes.simps)
         (simp add: enabled_shift push_bit_Suc_scale u t split: prod.splits)
  next
    case False
    have ih: "case collect_notes (Suc j) (push_bit (Suc j) w) xs n of
           (xs', n') \<Rightarrow>
             n' = n + length (filter (enabled w) [Suc j..<12]) \<and> length xs' = 12 \<and>
             take n' xs' = take n xs @ map of_nat (filter (enabled w) [Suc j..<12])"
      using Suc.prems j by (intro Suc.hyps(1) k) auto
    show ?thesis
      using ih False j
      by (subst collect_notes.simps)
         (simp add: enabled_shift push_bit_Suc_scale u split: prod.splits)
  qed
qed

lemma collect_notes_all:
  "case collect_notes 0 rs (replicate 12 0) 0 of
     (notes, numnotes) \<Rightarrow>
        numnotes = length (enabled_notes rs) \<and> length notes = 12 \<and>
        take numnotes notes = map of_nat (enabled_notes rs)"
  using collect_notes_spec [of 0 "replicate 12 0" 0 rs]
  by (simp add: enabled_notes_def)

text \<open>
  A scale word that is not 0 and keeps its low 4 bits at zero has an enabled note.
\<close>

lemma enabled_notes_nonempty:
  assumes "rs \<noteq> 0" "rs AND 0xF = 0"
  shows "enabled_notes rs \<noteq> []"
proof -
  from assms(1) obtain n where n: "bit rs n" by (auto simp: bit_eq_iff)
  then have n16: "n < 16" by (auto dest: bit_imp_le_length)
  have "4 \<le> n" using assms(2) n by (auto simp: low4_iff not_less [symmetric])
  then have "15 - n < 12" "enabled rs (15 - n)" using n n16 by (simp_all add: enabled_iff_bit)
  then have "15 - n \<in> set (enabled_notes rs)" by (simp add: enabled_notes_def)
  then show ?thesis by auto
qed

lemma length_enabled_notes: "length (enabled_notes rs) \<le> 12"
  using length_filter_le [of "enabled rs" "[0..<12]"] by (simp add: enabled_notes_def)


lemma mod12_byte:
  "unat (b :: byte) \<le> 247 \<Longrightarrow> mod12 (ucast b + 8) = Some (of_nat ((unat b + 8) mod 12))"
  using mod12_of_nat [of "unat b + 8"] by simp

lemma equal_index_all:
  "list_all (\<lambda>s. list_all (\<lambda>r. list_all (\<lambda>n.
      unat (ucast ((ucast (ucast (push_bit 3 (ucast (ucast (of_nat s :: int16) :: byte) :: int16) +
                                  ucast (of_nat r :: byte)) :: byte) * of_nat n :: uint16)
                   div 96) :: byte) = (8 * s + r) * n div 96)
      [0..<13]) [0..<8]) [0..<12]"
  by code_simp

lemma equal_index:
  assumes "s < 12" "r < 8" "n \<le> 12"
  shows "unat (ucast ((ucast (ucast (push_bit 3 (ucast (ucast (of_nat s :: int16) :: byte) :: int16) +
                                  ucast (of_nat r :: byte)) :: byte) * of_nat n :: uint16)
                   div 96) :: byte) = (8 * s + r) * n div 96"
proof -
  have A: "\<forall>s\<in>set [0..<12]. \<forall>r\<in>set [0..<8]. \<forall>n\<in>set [0..<13].
      unat (ucast ((ucast (ucast (push_bit 3 (ucast (ucast (of_nat s :: int16) :: byte) :: int16) +
                                  ucast (of_nat r :: byte)) :: byte) * of_nat n :: uint16)
                   div 96) :: byte) = (8 * s + r) * n div 96"
    using equal_index_all unfolding list_all_iff .
  have "s \<in> set [0..<12]" "r \<in> set [0..<8]" "n \<in> set [0..<13]" using assms by simp_all
  then show ?thesis using A by blast
qed

lemma and7_less: "unat ((x :: int16) AND 7) < 8"
proof -
  have "x AND 7 \<le> 7" by (rule word_and_le1)
  then have "unat (x AND 7) \<le> unat (7 :: int16)" by (simp only: word_le_nat_alt)
  then show ?thesis by simp
qed

text \<open>
  What \<open>quantizeEqual\<close> computes. For a rotated scale with at least one enabled note
  and a sample whose rounded semitone lies where the modulo-12 table is defined (at most
  247), it forms the number \<open>p = 8 * scalenote + r\<close> in 0..95 from the scale
  position of the rounded semitone and the remainder \<open>r = adcval & 7\<close> of the unrounded
  sample, and returns the enabled note of rank \<open>floor(p * count / 96)\<close> in ascending
  order, plus \<open>note - scalenote\<close>.
\<close>

lemma equal_spacing_rank:
  assumes "enabled_notes rs \<noteq> []" and "unat (quantizeSemitones adcval) \<le> 247"
  shows "let note = quantizeSemitones adcval;
             scalenote = (unat note + 8) mod 12;
             p = 8 * scalenote + unat (adcval AND 7);
             rank = p * length (enabled_notes rs) div 96
         in p < 96 \<and> rank < length (enabled_notes rs) \<and>
            quantizeEqual rs adcval =
              Some (note - of_nat scalenote + of_nat (enabled_notes rs ! rank))"
proof -
  define nt where "nt = quantizeSemitones adcval"
  define s where "s = (unat nt + 8) mod 12"
  define r where "r = unat (adcval AND 7)"
  define n where "n = length (enabled_notes rs)"
  define p where "p = 8 * s + r"
  define k where "k = p * n div 96"
  have s12: "s < 12" by (simp add: s_def)
  have r8: "r < 8" unfolding r_def by (rule and7_less)
  have n12: "n \<le> 12" unfolding n_def by (rule length_enabled_notes)
  have n0: "0 < n" unfolding n_def using assms(1) by simp
  have "\<exists>k. enabled rs k" using assms(1) by (auto simp: enabled_notes_def filter_empty_conv)
  then have rs: "rs \<noteq> 0" by (auto simp: enabled_def)
  have p96: "p < 96" using s12 r8 by (simp add: p_def)
  have "p * n < 96 * n" using p96 n0 by simp
  then have kn: "k < n" unfolding k_def by (simp add: less_mult_imp_div_less mult.commute)
  have nt: "(ucast (signed_drop_bit 3 (adcval + quartertone)) :: byte) = nt"
    by (simp add: nt_def quantizeSemitones_def)
  have m: "mod12 (ucast nt + 8) = Some (of_nat s)"
    unfolding s_def using assms(2) by (intro mod12_byte) (simp add: nt_def)
  have rb: "(ucast (adcval AND 7) :: byte) = of_nat r" by (simp add: r_def)
  obtain xs m' where c: "collect_notes 0 rs (replicate 12 0) 0 = (xs, m')"
    by (cases "collect_notes 0 rs (replicate 12 0) 0")
  have cs: "m' = n" "length xs = 12" "take n xs = map of_nat (enabled_notes rs)"
    using collect_notes_all [of rs] c by (auto simp: n_def)
  have idx: "unat (ucast ((ucast (ucast (push_bit 3 (ucast (ucast (of_nat s :: int16) :: byte) :: int16) +
                                  ucast (of_nat r :: byte)) :: byte) * of_nat n :: uint16)
                   div 96) :: byte) = k"
    unfolding k_def p_def by (rule equal_index [OF s12 r8 n12])
  have k12: "k < 12" using kn n12 by simp
  have "xs ! k = take n xs ! k" using kn by simp
  also have "\<dots> = of_nat (enabled_notes rs ! k)"
    using kn by (simp only: cs(3)) (simp add: n_def)
  finally have nth: "xs ! k = of_nat (enabled_notes rs ! k)" .
  have "quantizeEqual rs adcval = Some (nt - ucast (of_nat s :: int16) + of_nat (enabled_notes rs ! k))"
    using rs k12
    by (simp add: quantizeEqual_def nt m rb c cs idx nth Let_def del: of_nat_add of_nat_mult)
  moreover have "(ucast (of_nat s :: int16) :: byte) = of_nat s"
    using s12 by (simp add: unsigned_of_nat take_bit_nat_eq_self)
  ultimately show ?thesis
    using p96 kn
    unfolding Let_def nt_def [symmetric] s_def [symmetric] r_def [symmetric]
      n_def [symmetric] p_def [symmetric] k_def [symmetric]
    by simp
qed

text \<open>The scale 0xAD50 has 7 enabled notes; the sample 82 is at position 50.\<close>

lemma equal_spacing_example:
  "enabled_notes 0xAD50 \<noteq> [] \<and> unat (quantizeSemitones 82) \<le> 247 \<and>
   enabled_notes 0xAD50 = [0, 2, 4, 5, 7, 9, 11] \<and>
   8 * ((unat (quantizeSemitones 82) + 8) mod 12) + unat ((82 :: int16) AND 7) = 50 \<and>
   50 * length (enabled_notes 0xAD50) div 96 = 3 \<and>
   quantizeEqual 0xAD50 82 = Some 9"
proof -
  have q: "quantizeSemitones 82 = 10" by (simp add: quantizeSemitones_def quartertone_def)
  have c: "unat (quantizeSemitones 82) \<le> 247" by (simp add: q)
  have e: "enabled_notes 0xAD50 = [0, 2, 4, 5, 7, 9, 11]" by code_simp
  have a: "enabled_notes 0xAD50 \<noteq> []" by (simp add: e)
  have r: "unat ((82 :: int16) AND 7) = 2" by simp
  show ?thesis
    using equal_spacing_rank [OF a c] by (simp add: q e r Let_def)
qed

subsection \<open>The number formed by the code and the position of the sample\<close>

text \<open>
  The samples 0 to 1979 are those at or above 0 whose rounded semitone is at most 247.
  For them the rounded semitone is \<open>(n + 4) div 8\<close> and the remainder \<open>n mod 8\<close>.
\<close>

lemma sint_of_nat_small: "m < 32768 \<Longrightarrow> sint (of_nat m :: int16) = int m"
  by (simp add: signed_of_nat signed_take_bit_int_eq_self)

lemma signed_drop_bit_of_nat:
  "m < 32768 \<Longrightarrow> signed_drop_bit 3 (of_nat m :: int16) = of_nat (m div 8)"
proof -
  assume m: "m < 32768"
  have "sint (signed_drop_bit 3 (of_nat m :: int16)) = int (m div 8)"
    using m by (simp add: sint_signed_drop_bit_eq sint_of_nat_small drop_bit_eq_div zdiv_int)
  also have "\<dots> = sint (of_nat (m div 8) :: int16)"
    using m by (simp add: sint_of_nat_small)
  finally show ?thesis by (rule signed_word_eqI)
qed

lemma quantizeSemitones_of_nat:
  "n < 1980 \<Longrightarrow> quantizeSemitones (of_nat n) = of_nat ((n + 4) div 8)"
proof -
  assume n: "n < 1980"
  have a: "(of_nat n :: int16) + 4 = of_nat (n + 4)" by simp
  have b: "(n + 4) div 8 < 256" using n by simp
  show ?thesis
    unfolding quantizeSemitones_def quartertone_def a
    using n b
    by (simp only: signed_drop_bit_of_nat)
       (simp add: unsigned_of_nat take_bit_nat_eq_self del: of_nat_add)
qed

lemma remainder_of_nat: "n < 65536 \<Longrightarrow> unat ((of_nat n :: int16) AND 7) = n mod 8"
proof -
  assume n: "n < 65536"
  have "(7 :: int16) = mask 3" by (simp add: mask_eq_exp_minus_1)
  then have "(of_nat n :: int16) AND 7 = take_bit 3 (of_nat n)"
    by (simp only: take_bit_eq_mask)
  then show ?thesis
    using n by (simp add: take_bit_eq_mod unat_mod_distrib unsigned_of_nat take_bit_nat_eq_self)
qed

lemma upper_div: "4 \<le> r \<Longrightarrow> r < 8 \<Longrightarrow> (r + 4) div 8 = (1::nat)"
proof -
  assume a: "4 \<le> r" "r < 8"
  define x where "x = r - 4"
  have x: "r + 4 = 8 + x" "x < 8" using a by (simp_all add: x_def)
  show ?thesis unfolding x(1) using x(2) by simp
qed

lemma rounded_div: "(n + 4) div 8 = n div 8 + (if n mod 8 < 4 then 0 else (1::nat))"
proof -
  define q r where "q = n div 8" and "r = n mod 8"
  have n: "n = 8 * q + r" by (simp add: q_def r_def)
  have r: "r < 8" by (simp add: r_def)
  have "(n + 4) div 8 = (8 * q + (r + 4)) div 8" by (simp only: n add.assoc)
  also have "\<dots> = q + (r + 4) div 8" by simp
  also have "(r + 4) div 8 = (if r < 4 then 0 else 1)"
    using r upper_div [of r] by simp
  finally show ?thesis by (simp only: q_def r_def)
qed

lemma answered_sample:
  "(if n mod 8 < 4 then n else n + 8) = 8 * ((n + 4) div 8) + n mod (8::nat)"
  unfolding rounded_div by (cases "n mod 8 < 4") simp_all

lemma position_split: "r < 8 \<Longrightarrow> (8 * K + r) mod 96 = 8 * (K mod 12) + (r::nat)"
  using mod_mult2_eq [of "8 * K + r" 8 12] by simp

lemma offset_int: "int Q - int ((Q + 8) mod 12) = 4 + 12 * ((int Q - 4) div 12)"
proof -
  define t k where "t = (Q + 8) div 12" and "k = (Q + 8) mod 12"
  have "Q + 8 = 12 * t + k" by (simp add: t_def k_def)
  then have "int (Q + 8) = int (12 * t + k)" by (rule arg_cong)
  then have e: "int Q = 12 * int t + int k - 8" by simp
  have k: "k < 12" by (simp add: k_def)
  have "int Q - 4 = 12 * (int t - 1) + int k" unfolding e by simp
  then have "(int Q - 4) div 12 = (12 * (int t - 1) + int k) div 12" by (rule arg_cong)
  also have "\<dots> = int t - 1 + int k div 12" by simp
  also have "int k div 12 = 0" using k by simp
  finally have d: "(int Q - 4) div 12 = int t - 1" by simp
  have l: "int ((Q + 8) mod 12) = int k" by (simp only: k_def)
  show ?thesis by (simp only: d l) (simp add: e)
qed

lemma octave_div: "r < 8 \<Longrightarrow> (int (8 * Q + r) - 32) div 96 = (int Q - 4) div 12"
proof -
  assume r: "r < 8"
  have "int (8 * Q + r) - 32 = 8 * (int Q - 4) + int r" by simp
  moreover have "(8 * (int Q - 4) + int r) div (8 * 12) = (8 * (int Q - 4) + int r) div 8 div 12"
    by (rule zdiv_zmult2_eq) simp
  moreover have "(8 * (int Q - 4) + int r) div 8 = int Q - 4" using r by simp
  ultimately show ?thesis by simp
qed

lemma position_int: "(int m - 32) mod 96 = int ((m + 64) mod 96)"
proof -
  have "(int m - 32) mod 96 = (int m - 32 + 96) mod 96" by (simp only: mod_add_self2)
  also have "int m - 32 + 96 = int (m + 64)" by simp
  finally show ?thesis by (simp only: zmod_int) simp
qed

lemma octave_position_of_nat:
  assumes "r < 8" and "8 * Q + r < 32768"
  shows "octave_position (of_nat (8 * Q + r)) = 8 * ((Q + 8) mod 12) + r"
proof -
  have "octave_position (of_nat (8 * Q + r)) = (8 * Q + r + 64) mod 96"
    unfolding octave_position_def
    by (simp only: sint_of_nat_small [OF assms(2)] position_int nat_int)
  also have "8 * Q + r + 64 = 8 * (Q + 8) + r" by simp
  finally show ?thesis by (simp only: position_split [OF assms(1)])
qed

lemma octave_start_of_nat:
  assumes "r < 8" and "8 * Q + r < 32768"
  shows "octave_start (of_nat (8 * Q + r)) = of_nat Q - of_nat ((Q + 8) mod 12)"
proof -
  have "octave_start (of_nat (8 * Q + r)) = word_of_int (4 + 12 * ((int Q - 4) div 12))"
    unfolding octave_start_def
    by (simp only: sint_of_nat_small [OF assms(2)] octave_div [OF assms(1)])
  also have "\<dots> = word_of_int (int Q - int ((Q + 8) mod 12))"
    by (simp only: offset_int)
  also have "\<dots> = of_nat Q - of_nat ((Q + 8) mod 12)"
    by (simp only: of_int_diff of_int_of_nat_eq)
  finally show ?thesis .
qed

text \<open>
  For these samples and a scale with an enabled note, \<open>quantizeEqual\<close> returns what
  the words of the specification give for the sample itself when the remainder is below
  4, and what they give for the sample 8 counts (one semitone) higher when the remainder
  is 4 or more: the scale position comes from the rounded semitone, the remainder from
  the unrounded sample.
\<close>

lemma quantizeEqual_by_position:
  assumes "enabled_notes rs \<noteq> []" and "n < 1980"
  shows "quantizeEqual rs (of_nat n) =
           Some (spec_quantizeEqual rs (of_nat (if n mod 8 < 4 then n else n + 8)))"
proof -
  define Q where "Q = (n + 4) div 8"
  define r where "r = n mod 8"
  have m: "(if n mod 8 < 4 then n else n + 8) = 8 * Q + r"
    unfolding Q_def r_def by (rule answered_sample)
  have r: "r < 8" by (simp add: r_def)
  have Q: "Q < 248" using assms(2) by (simp add: Q_def)
  have m2: "8 * Q + r < 32768" using Q r by simp
  have nt: "quantizeSemitones (of_nat n) = of_nat Q"
    unfolding Q_def using assms(2) by (rule quantizeSemitones_of_nat)
  have u: "unat (of_nat Q :: byte) = Q"
    using Q by (simp add: unsigned_of_nat take_bit_nat_eq_self)
  have rr: "unat ((of_nat n :: int16) AND 7) = r"
    unfolding r_def using assms(2) by (intro remainder_of_nat) simp
  have dom: "unat (quantizeSemitones (of_nat n)) \<le> 247" using Q by (simp only: nt u)
  have e: "quantizeEqual rs (of_nat n) =
             Some (of_nat Q - of_nat ((Q + 8) mod 12) +
                   of_nat (enabled_notes rs !
                     ((8 * ((Q + 8) mod 12) + r) * length (enabled_notes rs) div 96)))"
    using equal_spacing_rank [OF assms(1) dom] unfolding Let_def nt u rr by (elim conjE)
  show ?thesis
    unfolding spec_quantizeEqual_def Let_def m
      octave_position_of_nat [OF r m2] octave_start_of_nat [OF r m2]
    by (rule e)
qed

text \<open>
  C6. \<open>quantizeEqual\<close> does not return the note of rank
  \<open>floor(position * count / 96)\<close> for every sample. With the scale 0xAD50 (7 enabled
  notes, the first at position 0) the sample 38 is at position 6 of the octave that
  starts at semitone 4, rank \<open>floor(6 * 7 / 96) = 0\<close>, note 4; the code returns 6. It
  rounds 38 to semitone 5 (scale position 1) and adds the remainder 6 of the unrounded
  sample: \<open>p = 14\<close>, rank 1. For the higher sample 40 (position 8) it returns 4.
\<close>

theorem equal_spacing_ahead_of_position:
  "quantizeEqual 0xAD50 38 = Some 6 \<and> quantizeEqual 0xAD50 40 = Some 4 \<and>
   octave_position 38 = 6 \<and> octave_position 40 = 8 \<and> octave_start 38 = 4 \<and>
   length (enabled_notes 0xAD50) = 7 \<and>
   spec_quantizeEqual 0xAD50 38 = 4 \<and> spec_quantizeEqual 0xAD50 40 = 4"
  by code_simp

text \<open>
  Below sample 0 the table ends. With equal spacing selected and the offset taken one
  octave down (\<open>KEY_DOWN\<close> in the offset menu), the ADC sample 29 reaches the
  quantizer as -68, the rounded semitone is the byte 248, and the lookup of
  \<open>mod12(note + 8)\<close> is at index 64 of a table of 64 entries.
\<close>

lemma equal_table_overrun:
  "map_option
     (\<lambda>(g, s). (qmode (state g), offsetsemitones (state g),
                 newvalhystoffset g channels_init 0 29,
                 quantizeSemitones (newvalhystoffset g channels_init 0 29),
                 quantize g (newvalhystoffset g channels_init 0 29)))
     (receive_all (globals_init, cvstatics_init)
        [Key KEY_QM True, Key 2 False, Key KEY_HOME False, Key KEY_OFFSET True,
         Key KEY_DOWN False])
   = Some (qmequal, - 12, - 68, 248, None)"
  by code_simp

section \<open>Ties in quantizeNearest\<close>

subsection \<open>What the four loops find\<close>

lemma scan_lowest_none:
  assumes "j \<le> n" "\<forall>k. j \<le> k \<and> k < n \<longrightarrow> \<not> enabled w k"
  shows "scan_lowest j n (push_bit j w) = (255, n, push_bit n w)"
  using assms
proof (induction "n - j" arbitrary: j)
  case 0
  then show ?case by (subst scan_lowest.simps) simp
next
  case (Suc x)
  then have "j < n" "\<not> enabled w j" by auto
  moreover have "scan_lowest (Suc j) n (push_bit (Suc j) w) = (255, n, push_bit n w)"
    using Suc by (intro Suc.hyps(1)) auto
  ultimately show ?case
    by (subst scan_lowest.simps) (simp add: enabled_shift)
qed

lemma scan_lowest_found:
  assumes "j \<le> m" "m < n" "enabled w m" "\<forall>k. j \<le> k \<and> k < m \<longrightarrow> \<not> enabled w k"
  shows "scan_lowest j n (push_bit j w) = (of_nat m, m, push_bit m w)"
  using assms
proof (induction "m - j" arbitrary: j)
  case 0
  then have "j = m" by simp
  then show ?case using 0 by (subst scan_lowest.simps) (simp add: enabled_shift)
next
  case (Suc x)
  then have "j < n" "\<not> enabled w j" by auto
  moreover have "scan_lowest (Suc j) n (push_bit (Suc j) w) = (of_nat m, m, push_bit m w)"
    using Suc by (intro Suc.hyps(1)) auto
  ultimately show ?case
    by (subst scan_lowest.simps) (simp add: enabled_shift)
qed

lemma scan_highest_none:
  assumes "j \<le> n" "\<forall>k. j \<le> k \<and> k < n \<longrightarrow> \<not> enabled w k"
  shows "scan_highest j n (push_bit j w) h = (h, push_bit n w)"
  using assms
proof (induction "n - j" arbitrary: j)
  case 0
  then show ?case by (subst scan_highest.simps) simp
next
  case (Suc x)
  then have "j < n" "\<not> enabled w j" by auto
  moreover have "scan_highest (Suc j) n (push_bit (Suc j) w) h = (h, push_bit n w)"
    using Suc by (intro Suc.hyps(1)) auto
  ultimately show ?case
    by (subst scan_highest.simps) (simp add: enabled_shift)
qed

lemma scan_highest_found:
  assumes "j \<le> m" "m < n" "enabled w m" "\<forall>k. m < k \<and> k < n \<longrightarrow> \<not> enabled w k"
  shows "scan_highest j n (push_bit j w) h = (of_nat m, push_bit n w)"
  using assms
proof (induction "m - j" arbitrary: j h)
  case 0
  then have jm: "j = m" by simp
  have "scan_highest (Suc m) n (push_bit (Suc m) w) (of_nat m) = (of_nat m, push_bit n w)"
    using 0 by (intro scan_highest_none) auto
  then show ?case using 0 jm by (subst scan_highest.simps) (simp add: enabled_shift)
next
  case (Suc x)
  then have "j < n" by auto
  moreover have "\<And>h'. scan_highest (Suc j) n (push_bit (Suc j) w) h' = (of_nat m, push_bit n w)"
    using Suc by (intro Suc.hyps(1)) auto
  ultimately show ?case
    by (subst scan_highest.simps) (simp add: enabled_shift)
qed

subsection \<open>Distances as bytes\<close>

lemma byte_of_nat_neq_255: "a < 12 \<Longrightarrow> (of_nat a :: byte) \<noteq> 255"
proof
  assume a: "a < 12" and "(of_nat a :: byte) = 255"
  then have "unat (of_nat a :: byte) = unat (255 :: byte)" by simp
  then show False using a by (simp add: unat_of_nat)
qed

lemma remainder_less_4:
  "((ucast ((x :: int16) AND 7) :: byte) < 4) \<longleftrightarrow> unat (x AND 7) < 4"
proof -
  have "unat (ucast (x AND 7) :: byte) = unat (x AND 7)"
    using and7_less [of x] by (simp add: unsigned_ucast_eq take_bit_nat_eq_self)
  then show ?thesis by (simp add: word_less_nat_alt)
qed

lemma byte_diff_up: "(of_nat (s + d) :: byte) - of_nat s = of_nat d"
  by simp

lemma byte_diff_up_wrap: "12 \<le> s + d \<Longrightarrow> 12 + (of_nat (s + d - 12) :: byte) - of_nat s = of_nat d"
  by simp

lemma byte_diff_down: "d \<le> s \<Longrightarrow> (of_nat s :: byte) - of_nat (s - d) = of_nat d"
  by simp

lemma byte_diff_down_wrap: "d \<le> s + 12 \<Longrightarrow> (of_nat s :: byte) + 12 - of_nat (s + 12 - d) = of_nat d"
  by simp

lemma nearest_assembled:
  assumes rs: "rs \<noteq> 0"
    and m: "mod12 (ucast (quantizeSemitones adcval) + 8) = Some (of_nat s)" and s12: "s < 12"
    and L1: "scan_lowest 0 s rs = (ll, j1, push_bit j1 rs)"
    and L2: "scan_highest j1 s (push_bit j1 rs) 255 = (lh, push_bit s rs)"
    and L3: "scan_lowest (Suc s) 12 (push_bit (Suc s) rs) = (hl, j3, push_bit j3 rs)"
    and L4: "scan_highest j3 12 (push_bit j3 rs) 255 = (hh, ls4)"
    and dis: "\<not> enabled rs s"
    and prev: "(if lh = 255 then (if hh = 255 then 12 else of_nat s + 12 - hh)
                else of_nat s - lh) = (of_nat d :: byte)"
    and nxt: "(if hl = 255 then (if ll = 255 then 12 else 12 + ll - of_nat s)
               else hl - of_nat s) = (of_nat d :: byte)"
  shows "quantizeNearest rs adcval =
           Some (if unat (adcval AND 7) < 4 then quantizeSemitones adcval + of_nat d
                 else quantizeSemitones adcval - of_nat d)"
proof -
  have sn: "(ucast (of_nat s :: int16) :: byte) = of_nat s"
    using s12 by (simp add: unsigned_of_nat take_bit_nat_eq_self)
  have usn: "unat (of_nat s :: byte) = s" using s12 by (simp add: unat_of_nat)
  have cur: "(push_bit s rs AND bitmask = bitmask) = False"
    using dis by (simp add: bitmask_test_eq enabled_shift)
  have q: "(ucast (signed_drop_bit 3 (adcval + quartertone)) :: byte) = quantizeSemitones adcval"
    by (simp add: quantizeSemitones_def)
  have ps: "push_bit 1 (push_bit s rs) = push_bit (Suc s) rs" by simp
  have s1: "s + 1 = Suc s" by simp
  show ?thesis
    unfolding quantizeNearest_def Let_def q m option.case sn usn L1 prod.case L2 cur ps s1
      L3 L4 prev nxt
    using rs
    by (simp add: remainder_less_4)
qed


lemma mod12_plus: "k < 12 \<Longrightarrow> x = k + 12 \<Longrightarrow> x mod 12 = (k :: nat)"
  by simp

text \<open>
  The claim C1 says that on a tie the lower candidate is returned when the remainder
  is below 4 and the higher one otherwise. On the major scale \<open>0xAD50\<close> the sample 40
  rounds to semitone 5, scale position 1, with remainder 0; positions 0 and 2 are both
  enabled at distance 1. The code returns 6, the higher candidate, not 4. For the
  sample 39 (same semitone, remainder 7) it returns 4, the lower candidate.
\<close>

theorem nearest_tie_break_counterexample:
  "quantizeSemitones 40 = 5 \<and> (unat (quantizeSemitones 40) + 8) mod 12 = 1 \<and>
   unat ((40 :: int16) AND 7) = 0 \<and>
   \<not> enabled 0xAD50 1 \<and> enabled 0xAD50 0 \<and> enabled 0xAD50 2 \<and>
   quantizeNearest 0xAD50 40 = Some 6 \<and>
   quantizeNearest 0xAD50 40 \<noteq> Some (quantizeSemitones 40 - 1) \<and>
   quantizeSemitones 39 = 5 \<and> unat ((39 :: int16) AND 7) = 7 \<and>
   quantizeNearest 0xAD50 39 = Some 4"
  by code_simp

text \<open>
  C1, amended. When the rounded semitone is disabled and the nearest enabled positions
  below and above (around the octave) are both at distance \<open>d\<close>, \<open>quantizeNearest\<close>
  returns the higher candidate \<open>note + d\<close> when the remainder \<open>r\<close> is below 4, and the
  lower candidate \<open>note - d\<close> when it is 4 or more. The rounded semitone lies where the
  modulo-12 table is defined (at most 247).
\<close>

theorem nearest_tie_break:
  assumes dom: "unat (quantizeSemitones adcval) \<le> 247"
    and s: "s = (unat (quantizeSemitones adcval) + 8) mod 12"
    and dis: "\<not> enabled rs s"
    and d: "0 < d" "d < 12"
    and up: "enabled rs ((s + d) mod 12)"
    and down: "enabled rs ((s + 12 - d) mod 12)"
    and nearest: "\<forall>e. 0 < e \<and> e < d \<longrightarrow>
                    \<not> enabled rs ((s + e) mod 12) \<and> \<not> enabled rs ((s + 12 - e) mod 12)"
  shows "quantizeNearest rs adcval =
           Some (if unat (adcval AND 7) < 4 then quantizeSemitones adcval + of_nat d
                 else quantizeSemitones adcval - of_nat d)"
proof -
  have rs: "rs \<noteq> 0" using up by (auto simp: enabled_def)
  have s12: "s < 12" by (simp add: s)
  have m: "mod12 (ucast (quantizeSemitones adcval) + 8) = Some (of_nat s)"
    unfolding s using dom by (rule mod12_byte)
  have d6: "d \<le> 6"
  proof (rule ccontr)
    assume "\<not> d \<le> 6"
    then have e: "0 < 12 - d \<and> 12 - d < d" using d by auto
    have "s + 12 - (12 - d) = s + d" using d by simp
    then show False using nearest e up by metis
  qed
  have upn: "\<And>e. 0 < e \<Longrightarrow> e < d \<Longrightarrow> \<not> enabled rs ((s + e) mod 12)"
    using nearest by blast
  have dnn: "\<And>e. 0 < e \<Longrightarrow> e < d \<Longrightarrow> \<not> enabled rs ((s + 12 - e) mod 12)"
    using nearest by blast
  consider (plain) "s + d < 12" "d \<le> s" | (upwrap) "12 \<le> s + d" | (downwrap) "s < d"
    by linarith
  then show ?thesis
  proof cases
    case plain
    have en_up: "enabled rs (s + d)" using up plain by simp
    have "(s + 12 - d) mod 12 = s - d" using plain s12 by (intro mod12_plus) auto
    then have en_dn: "enabled rs (s - d)" using down by simp
    define a where "a = (LEAST k. enabled rs k)"
    have a: "enabled rs a" unfolding a_def using en_dn by (rule LeastI)
    have ale: "a \<le> s - d" unfolding a_def using en_dn by (rule Least_le)
    have alow: "\<forall>k. 0 \<le> k \<and> k < a \<longrightarrow> \<not> enabled rs k"
      unfolding a_def using not_less_Least by blast
    have L1: "scan_lowest 0 s rs = (of_nat a, a, push_bit a rs)"
      using scan_lowest_found [of 0 a s rs] a ale alow plain d by simp
    have n2: "\<forall>k. s - d < k \<and> k < s \<longrightarrow> \<not> enabled rs k"
    proof (intro allI impI)
      fix k assume k: "s - d < k \<and> k < s"
      then have "0 < s - k" "s - k < d" "(s + 12 - (s - k)) mod 12 = k" using plain s12 by auto
      then show "\<not> enabled rs k" using dnn [of "s - k"] by simp
    qed
    have L2: "scan_highest a s (push_bit a rs) 255 = (of_nat (s - d), push_bit s rs)"
      using ale plain d en_dn n2 by (intro scan_highest_found) auto
    have n3: "\<forall>k. Suc s \<le> k \<and> k < s + d \<longrightarrow> \<not> enabled rs k"
    proof (intro allI impI)
      fix k assume k: "Suc s \<le> k \<and> k < s + d"
      then have "0 < k - s" "k - s < d" "(s + (k - s)) mod 12 = k" using plain by auto
      then show "\<not> enabled rs k" using upn [of "k - s"] by simp
    qed
    have L3: "scan_lowest (Suc s) 12 (push_bit (Suc s) rs) =
                (of_nat (s + d), s + d, push_bit (s + d) rs)"
      using plain d en_up n3 by (intro scan_lowest_found) auto
    obtain hh ls4 where L4: "scan_highest (s + d) 12 (push_bit (s + d) rs) 255 = (hh, ls4)"
      by (cases "scan_highest (s + d) 12 (push_bit (s + d) rs) 255")
    have x1: "(of_nat (s - d) :: byte) \<noteq> 255" "(of_nat (s + d) :: byte) \<noteq> 255"
      using plain s12 by (intro byte_of_nat_neq_255, simp)+
    show ?thesis
      using plain x1
      by (intro nearest_assembled [OF rs m s12 L1 L2 L3 L4 dis])
         (simp_all add: byte_diff_down byte_diff_up del: of_nat_add of_nat_diff)
  next
    case upwrap
    then have ds: "d \<le> s" using d6 by simp
    define a where "a = s + d - 12"
    have as: "a < s" "a \<le> s - d" using upwrap d6 d by (auto simp: a_def)
    have "(s + d) mod 12 = a" using upwrap as s12 by (intro mod12_plus) (auto simp: a_def)
    then have en_up: "enabled rs a" using up by simp
    have "(s + 12 - d) mod 12 = s - d" using ds s12 by (intro mod12_plus) auto
    then have en_dn: "enabled rs (s - d)" using down by simp
    have n1: "\<forall>k. 0 \<le> k \<and> k < a \<longrightarrow> \<not> enabled rs k"
    proof (intro allI impI)
      fix k assume k: "0 \<le> k \<and> k < a"
      then have "0 < k + 12 - s" "k + 12 - s < d" "(s + (k + 12 - s)) mod 12 = k"
        using upwrap s12 d by (auto simp: a_def)
      then show "\<not> enabled rs k" using upn [of "k + 12 - s"] by simp
    qed
    have L1: "scan_lowest 0 s rs = (of_nat a, a, push_bit a rs)"
      using scan_lowest_found [of 0 a s rs] en_up as n1 by simp
    have n2: "\<forall>k. s - d < k \<and> k < s \<longrightarrow> \<not> enabled rs k"
    proof (intro allI impI)
      fix k assume k: "s - d < k \<and> k < s"
      then have "0 < s - k" "s - k < d" "(s + 12 - (s - k)) mod 12 = k" using ds s12 by auto
      then show "\<not> enabled rs k" using dnn [of "s - k"] by simp
    qed
    have L2: "scan_highest a s (push_bit a rs) 255 = (of_nat (s - d), push_bit s rs)"
      using as ds d en_dn n2 by (intro scan_highest_found) auto
    have n3: "\<forall>k. Suc s \<le> k \<and> k < 12 \<longrightarrow> \<not> enabled rs k"
    proof (intro allI impI)
      fix k assume k: "Suc s \<le> k \<and> k < 12"
      then have "0 < k - s" "k - s < d" "(s + (k - s)) mod 12 = k" using upwrap by auto
      then show "\<not> enabled rs k" using upn [of "k - s"] by simp
    qed
    have L3: "scan_lowest (Suc s) 12 (push_bit (Suc s) rs) = (255, 12, push_bit 12 rs)"
      using s12 n3 by (intro scan_lowest_none) auto
    have L4: "scan_highest 12 12 (push_bit 12 rs) 255 = (255, push_bit 12 rs)"
      by (intro scan_highest_none) auto
    have x1: "(of_nat (s - d) :: byte) \<noteq> 255" "(of_nat a :: byte) \<noteq> 255"
      using as s12 by (intro byte_of_nat_neq_255, simp)+
    have x2: "12 + (of_nat a :: byte) - of_nat s = of_nat d"
      unfolding a_def using upwrap by (rule byte_diff_up_wrap)
    show ?thesis
      using ds x1 x2
      by (intro nearest_assembled [OF rs m s12 L1 L2 L3 L4 dis])
         (simp_all add: byte_diff_down del: of_nat_add of_nat_diff)
  next
    case downwrap
    then have su: "s + d < 12" using d6 by simp
    define b where "b = s + 12 - d"
    have bs: "s + d \<le> b" "b < 12" using downwrap d6 d by (auto simp: b_def)
    have en_up: "enabled rs (s + d)" using up su by simp
    have en_dn: "enabled rs b" using down bs by (simp add: b_def)
    have n1: "\<forall>k. 0 \<le> k \<and> k < s \<longrightarrow> \<not> enabled rs k"
    proof (intro allI impI)
      fix k assume k: "0 \<le> k \<and> k < s"
      then have "0 < s - k" "s - k < d" "(s + 12 - (s - k)) mod 12 = k"
        using downwrap s12 by auto
      then show "\<not> enabled rs k" using dnn [of "s - k"] by simp
    qed
    have L1: "scan_lowest 0 s rs = (255, s, push_bit s rs)"
      using scan_lowest_none [of 0 s rs] n1 by simp
    have L2: "scan_highest s s (push_bit s rs) 255 = (255, push_bit s rs)"
      by (intro scan_highest_none) auto
    have n3: "\<forall>k. Suc s \<le> k \<and> k < s + d \<longrightarrow> \<not> enabled rs k"
    proof (intro allI impI)
      fix k assume k: "Suc s \<le> k \<and> k < s + d"
      then have "0 < k - s" "k - s < d" "(s + (k - s)) mod 12 = k" using su by auto
      then show "\<not> enabled rs k" using upn [of "k - s"] by simp
    qed
    have L3: "scan_lowest (Suc s) 12 (push_bit (Suc s) rs) =
                (of_nat (s + d), s + d, push_bit (s + d) rs)"
      using su d en_up n3 by (intro scan_lowest_found) auto
    have n4: "\<forall>k. b < k \<and> k < 12 \<longrightarrow> \<not> enabled rs k"
    proof (intro allI impI)
      fix k assume k: "b < k \<and> k < 12"
      then have "0 < s + 12 - k" "s + 12 - k < d" "(s + 12 - (s + 12 - k)) mod 12 = k"
        using downwrap by (auto simp: b_def)
      then show "\<not> enabled rs k" using dnn [of "s + 12 - k"] by simp
    qed
    have L4: "scan_highest (s + d) 12 (push_bit (s + d) rs) 255 = (of_nat b, push_bit 12 rs)"
      using bs en_dn n4 by (intro scan_highest_found) auto
    have x1: "(of_nat b :: byte) \<noteq> 255" "(of_nat (s + d) :: byte) \<noteq> 255"
      using bs su by (intro byte_of_nat_neq_255, simp)+
    have x2: "(of_nat s :: byte) + 12 - of_nat b = of_nat d"
      unfolding b_def using d by (intro byte_diff_down_wrap) simp
    show ?thesis
      using x1 x2
      by (intro nearest_assembled [OF rs m s12 L1 L2 L3 L4 dis])
         (simp_all add: byte_diff_up del: of_nat_add of_nat_diff)
  qed
qed


theorem nearest_tie_break_witness:
  "unat (quantizeSemitones 48) \<le> 247 \<and> unat (quantizeSemitones 47) \<le> 247 \<and>
   (unat (quantizeSemitones 48) + 8) mod 12 = 2 \<and>
   (unat (quantizeSemitones 47) + 8) mod 12 = 2 \<and>
   \<not> enabled 0x8900 2 \<and>
   enabled 0x8900 ((2 + 2) mod 12) \<and> enabled 0x8900 ((2 + 12 - 2) mod 12) \<and>
   \<not> enabled 0x8900 ((2 + 1) mod 12) \<and> \<not> enabled 0x8900 ((2 + 12 - 1) mod 12) \<and>
   unat ((48 :: int16) AND 7) < 4 \<and> \<not> unat ((47 :: int16) AND 7) < 4 \<and>
   quantizeNearest 0x8900 48 = Some (quantizeSemitones 48 + 2) \<and>
   quantizeNearest 0x8900 47 = Some (quantizeSemitones 47 - 2)"
proof -
  have q48: "quantizeSemitones 48 = 6" and q47: "quantizeSemitones 47 = 6"
    by (simp_all add: quantizeSemitones_def quartertone_def)
  have dom48: "unat (quantizeSemitones 48) \<le> 247" and dom47: "unat (quantizeSemitones 47) \<le> 247"
    by (simp_all add: q48 q47)
  have s48: "(2 :: nat) = (unat (quantizeSemitones 48) + 8) mod 12"
    and s47: "(2 :: nat) = (unat (quantizeSemitones 47) + 8) mod 12"
    by (simp_all add: q48 q47)
  have dis: "\<not> enabled 0x8900 2" by code_simp
  have up: "enabled 0x8900 ((2 + 2) mod 12)" by code_simp
  have down: "enabled 0x8900 ((2 + 12 - 2) mod 12)" by code_simp
  have n1: "\<not> enabled 0x8900 ((2 + 1) mod 12)" by code_simp
  have n2: "\<not> enabled 0x8900 ((2 + 12 - 1) mod 12)" by code_simp
  have nearest: "\<forall>e. 0 < e \<and> e < 2 \<longrightarrow>
      \<not> enabled 0x8900 ((2 + e) mod 12) \<and> \<not> enabled 0x8900 ((2 + 12 - e) mod 12)"
  proof (intro allI impI)
    fix e :: nat assume "0 < e \<and> e < 2"
    then have "e = 1" by simp
    then show "\<not> enabled 0x8900 ((2 + e) mod 12) \<and> \<not> enabled 0x8900 ((2 + 12 - e) mod 12)"
      using n1 n2 by simp
  qed
  have d: "(0 :: nat) < 2" "(2 :: nat) < 12" by simp_all
  have r48: "unat ((48 :: int16) AND 7) < 4" and r47: "\<not> unat ((47 :: int16) AND 7) < 4"
    by simp_all
  show ?thesis
    using nearest_tie_break [OF dom48 s48 dis d up down nearest]
      nearest_tie_break [OF dom47 s47 dis d up down nearest]
      dom48 dom47 s48 s47 dis up down n1 n2 r48 r47
    by simp
qed

section \<open>Gate suppression\<close>

subsection \<open>One event and the gate of a channel\<close>

lemma gate_stage_lastgateoutval:
  "lastgateoutval (gate_stage g c j) =
     (if gatecounter c j = 0 \<and> outval c j \<noteq> lastgateoutval c j
      then (lastgateoutval c)(j := outval c j) else lastgateoutval c)"
  by (auto simp add: gate_stage_def Let_def)

lemma gate_stage_GATE:
  "GATE (gate_stage g c j) i \<Longrightarrow>
     GATE c i \<or> (i = j \<and> gatecounter c j = 0 \<and> outval c j \<noteq> lastgateoutval c j)"
  by (simp add: gate_stage_def Let_def split: if_splits)

lemma accept_stage_keeps:
  "lastgateoutval (snd (accept_stage g c j candidate trig)) = lastgateoutval c"
  "GATE (snd (accept_stage g c j candidate trig)) i \<Longrightarrow> GATE c i"
  by (simp_all add: accept_stage_def split: if_splits)

lemma processChannel_gate:
  assumes "processChannel g c j newadcval din = Some (g', c')"
  shows "\<exists>c1 :: channels. outval c' i = outval c1 i \<and> outval c' j = outval c1 j \<and>
              lastgateoutval c1 i = lastgateoutval c i \<and>
              lastgateoutval c1 j = lastgateoutval c j \<and>
              (GATE c1 i \<longrightarrow> GATE c i) \<and>
              lastgateoutval c' i =
                (if i = j \<and> gatecounter c1 j = 0 \<and> outval c1 j \<noteq> lastgateoutval c1 j
                 then outval c1 j else lastgateoutval c1 i) \<and>
              (GATE c' i \<longrightarrow>
                 GATE c1 i \<or> (i = j \<and> gatecounter c1 j = 0 \<and> outval c1 j \<noteq> lastgateoutval c1 j))"
proof -
  from assms obtain candidate trig c0 where
    cs: "candidate_stage g c j newadcval = Some (candidate, trig, c0)"
    by (auto simp: processChannel_def split: option.splits)
  define g1 where "g1 = fst (accept_stage g c0 j candidate trig)"
  define c1 where "c1 = snd (accept_stage g c0 j candidate trig)"
  have c': "c' = trigger_stage g1 (gate_stage g1 c1 j) j din"
    using assms cs by (simp add: processChannel_def Let_def g1_def c1_def split: prod.splits)
  have "outval c' = outval c1" by (simp add: c')
  moreover have "lastgateoutval c1 = lastgateoutval c"
    by (simp add: c1_def accept_stage_keeps candidate_stage_keeps [OF cs])
  moreover have "GATE c1 i \<longrightarrow> GATE c i"
    using accept_stage_keeps(2) [of g c0 j candidate trig i]
    by (simp add: c1_def candidate_stage_keeps [OF cs])
  moreover have "lastgateoutval c' i =
                (if i = j \<and> gatecounter c1 j = 0 \<and> outval c1 j \<noteq> lastgateoutval c1 j
                 then outval c1 j else lastgateoutval c1 i)"
    by (simp add: c' gate_stage_lastgateoutval)
  moreover have "GATE c' i \<longrightarrow>
                 GATE c1 i \<or> (i = j \<and> gatecounter c1 j = 0 \<and> outval c1 j \<noteq> lastgateoutval c1 j)"
    using gate_stage_GATE [of g1 c1 j i] by (simp add: c')
  ultimately show ?thesis by (intro exI [of _ c1]) auto
qed

lemma occur_pulse:
  assumes "occur c e = Some c'" "\<not> GATE c i" "GATE c' i"
  shows "outval c' i \<noteq> lastgateoutval c i \<and> lastgateoutval c' i = outval c' i"
proof (cases e)
  case (Sample g j newadcval din)
  then obtain g' where "processChannel g c j newadcval din = Some (g', c')"
    using assms(1) by auto
  from processChannel_gate [OF this, of i] obtain c1 :: channels where
    o: "outval c' i = outval c1 i" and l: "lastgateoutval c1 i = lastgateoutval c i" and
    g1: "GATE c1 i \<longrightarrow> GATE c i" and
    l': "lastgateoutval c' i =
          (if i = j \<and> gatecounter c1 j = 0 \<and> outval c1 j \<noteq> lastgateoutval c1 j
           then outval c1 j else lastgateoutval c1 i)" and
    g': "GATE c' i \<longrightarrow>
           GATE c1 i \<or> (i = j \<and> gatecounter c1 j = 0 \<and> outval c1 j \<noteq> lastgateoutval c1 j)"
    by blast
  from g' g1 assms(2,3) have f: "i = j \<and> gatecounter c1 j = 0 \<and> outval c1 j \<noteq> lastgateoutval c1 j"
    by blast
  then have "lastgateoutval c' i = outval c1 j" using l' by simp
  then show ?thesis using f o l by simp
next
  case (Edge j)
  then show ?thesis using assms by auto
qed

lemma occur_settled:
  assumes "occur c e = Some c'" "lastgateoutval c i = outval c' i"
  shows "(GATE c' i \<longrightarrow> GATE c i) \<and> lastgateoutval c' i = outval c' i"
proof (cases e)
  case (Sample g j newadcval din)
  then obtain g' where "processChannel g c j newadcval din = Some (g', c')"
    using assms(1) by auto
  from processChannel_gate [OF this, of i] obtain c1 :: channels where
    o: "outval c' i = outval c1 i" and l: "lastgateoutval c1 i = lastgateoutval c i" and
    g1: "GATE c1 i \<longrightarrow> GATE c i" and
    l': "lastgateoutval c' i =
          (if i = j \<and> gatecounter c1 j = 0 \<and> outval c1 j \<noteq> lastgateoutval c1 j
           then outval c1 j else lastgateoutval c1 i)" and
    g': "GATE c' i \<longrightarrow>
           GATE c1 i \<or> (i = j \<and> gatecounter c1 j = 0 \<and> outval c1 j \<noteq> lastgateoutval c1 j)"
    by blast
  have n: "\<not> (i = j \<and> gatecounter c1 j = 0 \<and> outval c1 j \<noteq> lastgateoutval c1 j)"
    using o l assms(2) by auto
  then have "lastgateoutval c' i = lastgateoutval c1 i" using l' by simp
  then show ?thesis using n g' g1 l assms(2) by auto
next
  case (Edge j)
  then show ?thesis using assms by auto
qed

lemma run_Cons:
  assumes "run c (e # es) = Some tr"
  obtains c' tr' where "occur c e = Some c'" "run c' es = Some tr'" "tr = c # tr'"
  using assms by (auto split: option.splits)

lemma run_hd: "run c es = Some tr \<Longrightarrow> \<exists>rest. tr = c # rest"
  by (cases es) (auto split: option.splits)

lemma settled_no_pulse:
  assumes "run c es = Some tr" "lastgateoutval c i = v" "\<forall>s\<in>set (tl tr). outval s i = v"
  shows "gate_pulses i tr = 0"
  using assms
proof (induction es arbitrary: c tr)
  case Nil
  then show ?case by auto
next
  case (Cons e es)
  from Cons.prems(1) obtain c' tr' where
    o: "occur c e = Some c'" and r: "run c' es = Some tr'" and tr: "tr = c # tr'"
    by (rule run_Cons)
  from run_hd [OF r] obtain rest where tr': "tr' = c' # rest" by blast
  have v': "outval c' i = v" using Cons.prems(3) tr tr' by simp
  have s: "(GATE c' i \<longrightarrow> GATE c i) \<and> lastgateoutval c' i = outval c' i"
    using o Cons.prems(2) v' by (intro occur_settled) simp_all
  have "gate_pulses i tr' = 0"
    using r s v' Cons.prems(3) tr tr' by (intro Cons.IH) auto
  then show ?case using s tr tr' by auto
qed

lemma constant_output_one_pulse:
  assumes "run c es = Some tr" "\<forall>s\<in>set (tl tr). outval s i = v"
  shows "gate_pulses i tr \<le> 1"
  using assms
proof (induction es arbitrary: c tr)
  case Nil
  then show ?case by auto
next
  case (Cons e es)
  from Cons.prems(1) obtain c' tr' where
    o: "occur c e = Some c'" and r: "run c' es = Some tr'" and tr: "tr = c # tr'"
    by (rule run_Cons)
  from run_hd [OF r] obtain rest where tr': "tr' = c' # rest" by blast
  have v': "outval c' i = v" using Cons.prems(2) tr tr' by simp
  have rest: "\<forall>s\<in>set (tl tr'). outval s i = v" using Cons.prems(2) tr tr' by simp
  show ?case
  proof (cases "\<not> GATE c i \<and> GATE c' i")
    case True
    then have lg: "lastgateoutval c' i = v" using occur_pulse [OF o, of i] v' by simp
    have "gate_pulses i tr' = 0" by (rule settled_no_pulse [OF r lg rest])
    then show ?thesis using tr tr' by simp
  next
    case False
    have "gate_pulses i tr' \<le> 1" using r rest by (rule Cons.IH)
    then show ?thesis using False tr tr' by auto
  qed
qed

lemma pulses_differ:
  assumes "run c es = Some tr"
  shows "successively (\<lambda>a b. \<not> GATE a i \<and> GATE b i \<longrightarrow> outval b i \<noteq> lastgateoutval a i) tr"
  using assms
proof (induction es arbitrary: c tr)
  case Nil
  then show ?case by auto
next
  case (Cons e es)
  from Cons.prems(1) obtain c' tr' where
    o: "occur c e = Some c'" and r: "run c' es = Some tr'" and tr: "tr = c # tr'"
    by (rule run_Cons)
  from run_hd [OF r] obtain rest where tr': "tr' = c' # rest" by blast
  have "successively (\<lambda>a b. \<not> GATE a i \<and> GATE b i \<longrightarrow> outval b i \<noteq> lastgateoutval a i) tr'"
    using r by (rule Cons.IH)
  then show ?case using occur_pulse [OF o, of i] tr tr' by auto
qed

text \<open>
  C8. In every run of the channel processor, whenever the gate output of channel
  \<open>i\<close> goes from low to high, the output value at that moment differs from the
  output value that produced the previous gate (\<open>lastgateoutval\<close> before the step).
  Hence accepted triggers that resolve to one and the same output value produce at
  most one gate pulse: in a run in which the output value of the channel is \<open>v\<close>
  after every event, the gate goes high at most once.
\<close>

theorem gate_suppression:
  assumes "run c es = Some tr"
  shows "successively (\<lambda>a b. \<not> GATE a i \<and> GATE b i \<longrightarrow> outval b i \<noteq> lastgateoutval a i) tr \<and>
         ((\<forall>s\<in>set (tl tr). outval s i = v) \<longrightarrow> gate_pulses i tr \<le> 1)"
  using pulses_differ [OF assms] constant_output_one_pulse [OF assms] by blast


theorem gate_suppression_witness:
  "case run channels_init
          [Sample (globals_init\<lparr>mode := keyboard, keyboardtriggered := 2\<rparr>) 0 0 False,
           Sample (globals_init\<lparr>mode := keyboard, keyboardtriggered := 1\<rparr>) 0 0 False,
           Sample (globals_init\<lparr>mode := keyboard\<rparr>) 0 0 False,
           Sample (globals_init\<lparr>mode := keyboard\<rparr>) 0 0 False,
           Sample (globals_init\<lparr>mode := keyboard\<rparr>) 0 0 False,
           Sample (globals_init\<lparr>mode := keyboard\<rparr>) 0 0 False] of
     None \<Rightarrow> False
   | Some tr \<Rightarrow>
       list_all (\<lambda>s. outval s 0 = 63) (tl tr) \<and> gate_pulses 0 tr = 1 \<and>
       gate_pulses 0 tr \<le> 1 \<and>
       successively
         (\<lambda>a b. \<not> GATE a 0 \<and> GATE b 0 \<longrightarrow> outval b 0 \<noteq> lastgateoutval a 0) tr"
proof -
  let ?es = "[Sample (globals_init\<lparr>mode := keyboard, keyboardtriggered := 2\<rparr>) 0 0 False,
           Sample (globals_init\<lparr>mode := keyboard, keyboardtriggered := 1\<rparr>) 0 0 False,
           Sample (globals_init\<lparr>mode := keyboard\<rparr>) 0 0 False,
           Sample (globals_init\<lparr>mode := keyboard\<rparr>) 0 0 False,
           Sample (globals_init\<lparr>mode := keyboard\<rparr>) 0 0 False,
           Sample (globals_init\<lparr>mode := keyboard\<rparr>) 0 0 False]"
  have "case run channels_init ?es of
          None \<Rightarrow> False
        | Some tr \<Rightarrow> list_all (\<lambda>s. outval s 0 = 63) (tl tr) \<and> gate_pulses 0 tr = 1"
    by code_simp
  then obtain tr where r: "run channels_init ?es = Some tr"
    and a: "list_all (\<lambda>s. outval s 0 = 63) (tl tr)" and p: "gate_pulses 0 tr = 1"
    by (auto split: option.splits)
  have body: "list_all (\<lambda>s. outval s 0 = 63) (tl tr) \<and> gate_pulses 0 tr = 1 \<and>
       gate_pulses 0 tr \<le> 1 \<and>
       successively
         (\<lambda>a b. \<not> GATE a 0 \<and> GATE b 0 \<longrightarrow> outval b 0 \<noteq> lastgateoutval a 0) tr"
    using gate_suppression [OF r, of 0 63] a p by (simp add: list_all_iff)
  show ?thesis unfolding r option.case by (rule body)
qed


end
